theory Spec2Isabelle
  imports Complex_Main "HOL-Library.AList" "HOL-Library.Multiset"
begin

section \<open>Event loop (\<^verbatim>\<open>src/agent/event_loop.py\<close>)\<close>

subsection \<open>Events\<close>

datatype EventPriority = CRITICAL | HIGH | NORMAL | LOW | BACKGROUND

text \<open>The \<^verbatim>\<open>.value\<close> of an \<^verbatim>\<open>EventPriority\<close> member.\<close>

fun priority_value :: "EventPriority \<Rightarrow> int" where
  "priority_value CRITICAL = 0"
| "priority_value HIGH = 1"
| "priority_value NORMAL = 2"
| "priority_value LOW = 3"
| "priority_value BACKGROUND = 4"

datatype EventType = CALL | WHATSAPP | TELEGRAM | MEMORY | SYSTEM | USER

text \<open>
  The dataclass \<^verbatim>\<open>Event\<close>. The payload type \<^verbatim>\<open>Any\<close> is the type parameter; a
  \<^verbatim>\<open>datetime\<close> is a number of seconds.
\<close>

record 'd Event =
  event_type :: EventType
  data :: 'd
  priority :: EventPriority
  timestamp :: rat
  retry_count :: int
  max_retries :: int
  event_id :: string

text \<open>\<^verbatim>\<open>Event.__lt__\<close>: only the priority values are compared.\<close>

definition Event_lt :: "'d Event \<Rightarrow> 'd Event \<Rightarrow> bool" where
  "Event_lt self other = (priority_value (priority self) < priority_value (priority other))"

record EventLoopConfig =
  max_queue_size :: int
  worker_count :: int
  default_timeout_seconds :: rat
  retry_delay_seconds :: rat
  max_retry_delay_seconds :: rat

definition EventLoopConfig_default :: EventLoopConfig where
  "EventLoopConfig_default =
     \<lparr>max_queue_size = 1000, worker_count = 4, default_timeout_seconds = 30,
      retry_delay_seconds = 1, max_retry_delay_seconds = 60\<rparr>"

subsection \<open>The priority queue\<close>

text \<open>
  \<^verbatim>\<open>asyncio.PriorityQueue\<close> keeps its entries in a list ordered as a binary heap by
  the functions of \<^verbatim>\<open>heapq\<close>, which compare entries with \<^verbatim>\<open><\<close> only. The two
  sifting loops of \<^verbatim>\<open>heapq\<close> are the recursive functions below; \<open>lt\<close> is the
  comparison of the entries.
\<close>

function siftdown :: "('a \<Rightarrow> 'a \<Rightarrow> bool) \<Rightarrow> 'a list \<Rightarrow> nat \<Rightarrow> nat \<Rightarrow> 'a \<Rightarrow> 'a list" where
  "siftdown lt heap startpos pos newitem =
     (if startpos < pos then
        (if lt newitem (heap ! ((pos - 1) div 2))
         then siftdown lt (heap[pos := heap ! ((pos - 1) div 2)]) startpos ((pos - 1) div 2) newitem
         else heap[pos := newitem])
      else heap[pos := newitem])"
  by pat_completeness auto
termination
  by (relation "measure (\<lambda>(lt, heap, startpos, pos, newitem). pos)") auto

declare siftdown.simps [simp del]

definition heappush :: "('a \<Rightarrow> 'a \<Rightarrow> bool) \<Rightarrow> 'a list \<Rightarrow> 'a \<Rightarrow> 'a list" where
  "heappush lt heap item = siftdown lt (heap @ [item]) 0 (length heap) item"

text \<open>The first loop of \<^verbatim>\<open>_siftup\<close>: the smaller child moves up until a leaf is reached.\<close>

definition smaller_child :: "('a \<Rightarrow> 'a \<Rightarrow> bool) \<Rightarrow> 'a list \<Rightarrow> nat \<Rightarrow> nat \<Rightarrow> nat" where
  "smaller_child lt heap endpos childpos =
     (if childpos + 1 < endpos \<and> \<not> lt (heap ! childpos) (heap ! (childpos + 1))
      then childpos + 1 else childpos)"

function bubble_up :: "('a \<Rightarrow> 'a \<Rightarrow> bool) \<Rightarrow> 'a list \<Rightarrow> nat \<Rightarrow> nat \<Rightarrow> 'a list \<times> nat" where
  "bubble_up lt heap endpos pos =
     (if 2 * pos + 1 < endpos then
        bubble_up lt (heap[pos := heap ! smaller_child lt heap endpos (2 * pos + 1)]) endpos
          (smaller_child lt heap endpos (2 * pos + 1))
      else (heap, pos))"
  by pat_completeness auto
termination
  by (relation "measure (\<lambda>(lt, heap, endpos, pos). endpos - pos)")
     (auto simp: smaller_child_def)

declare bubble_up.simps [simp del]

definition siftup :: "('a \<Rightarrow> 'a \<Rightarrow> bool) \<Rightarrow> 'a list \<Rightarrow> nat \<Rightarrow> 'a list" where
  "siftup lt heap pos =
     (case bubble_up lt heap (length heap) pos of
        (heap', pos') \<Rightarrow> siftdown lt heap' pos pos' (heap ! pos))"

text \<open>\<^verbatim>\<open>heappop\<close>; \<open>None\<close> is the \<^verbatim>\<open>IndexError\<close> of popping an empty list.\<close>

definition heappop :: "('a \<Rightarrow> 'a \<Rightarrow> bool) \<Rightarrow> 'a list \<Rightarrow> ('a \<times> 'a list) option" where
  "heappop lt heap =
     (if heap = [] then None
      else if butlast heap = [] then Some (last heap, [])
      else Some (hd heap, siftup lt ((butlast heap)[0 := last heap]) 0))"

text \<open>\<^verbatim>\<open>Queue.full\<close>: a \<^verbatim>\<open>maxsize\<close> of zero or less means an unbounded queue.\<close>

definition queue_full :: "int \<Rightarrow> 'a list \<Rightarrow> bool" where
  "queue_full maxsize q = (if maxsize \<le> 0 then False else maxsize \<le> int (length q))"

subsection \<open>The dispatcher state\<close>

record Metrics =
  processed :: int
  failed :: int
  retried :: int
  dropped :: int

text \<open>
  What calling a handler on an event comes to: it returns, it exceeds the timeout
  (\<^verbatim>\<open>asyncio.TimeoutError\<close>), or it raises an \<^verbatim>\<open>Exception\<close> whose text is given.
\<close>

datatype outcome = Completed | TimedOut | Raised string

text \<open>One constructor for each \<^verbatim>\<open>logger.error\<close> and \<^verbatim>\<open>logger.warning\<close> call of the module.\<close>

datatype el_log =
    QueueFullDroppingEvent EventType
  | NoHandlers EventType
  | HandlerTimeout EventType
  | HandlerError EventType string
  | QueueFullDroppingRetry EventType
  | FailedAfterRetries EventType int
  | WorkerError string

text \<open>
  The \<^verbatim>\<open>EventLoop\<close> object. Events are mutable objects shared between the queue and the
  worker that processes them, so the state holds a store of events (\<open>objects\<close>, with the
  next free reference) and the queue holds references. \<open>invocations\<close> is the record of the
  handler calls made so far: the position of the handler in its list, the event it was
  called on and how the call ended. \<open>slept\<close> lists the back-off delays the worker has
  slept so far.
\<close>

record 'd EventLoop =
  config :: EventLoopConfig
  objects :: "nat \<Rightarrow> 'd Event"
  next_ref :: nat
  queue :: "nat list"
  handlers :: "EventType \<Rightarrow> ('d Event \<Rightarrow> outcome) list"
  workers :: "nat list"
  running :: bool
  metrics :: Metrics
  logged :: "el_log list"
  invocations :: "(nat \<times> nat \<times> outcome) list"
  slept :: "rat list"

definition EventLoop_init :: "EventLoopConfig \<Rightarrow> 'd EventLoop" where
  "EventLoop_init cfg =
     \<lparr>config = cfg, objects = (\<lambda>r. undefined), next_ref = 0, queue = [],
      handlers = (\<lambda>t. []), workers = [], running = False,
      metrics = \<lparr>processed = 0, failed = 0, retried = 0, dropped = 0\<rparr>,
      logged = [], invocations = [], slept = []\<rparr>"

text \<open>The queue compares two references by comparing the events they point to.\<close>

definition ref_lt :: "(nat \<Rightarrow> 'd Event) \<Rightarrow> nat \<Rightarrow> nat \<Rightarrow> bool" where
  "ref_lt objs a b = Event_lt (objs a) (objs b)"

definition register_handler :: "EventType \<Rightarrow> ('d Event \<Rightarrow> outcome) \<Rightarrow> 'd EventLoop \<Rightarrow> 'd EventLoop" where
  "register_handler t h s = s\<lparr>handlers := (handlers s)(t := handlers s t @ [h])\<rparr>"

text \<open>
  \<^verbatim>\<open>emit\<close>. The clock reading and the identifier of the new event come from the
  environment. The result is the new event, or \<open>None\<close> when the queue is full.
\<close>

definition emit ::
  "rat \<Rightarrow> string \<Rightarrow> EventType \<Rightarrow> 'd \<Rightarrow> EventPriority \<Rightarrow> 'd EventLoop \<Rightarrow> nat option \<times> 'd EventLoop" where
  "emit now eid t d p s =
     (let event = \<lparr>event_type = t, data = d, priority = p, timestamp = now,
                   retry_count = 0, max_retries = 3, event_id = eid\<rparr>;
          r = next_ref s;
          s1 = s\<lparr>objects := (objects s)(r := event), next_ref := Suc r\<rparr>
      in if queue_full (max_queue_size (config s1)) (queue s1)
         then (None, s1\<lparr>logged := logged s1 @ [QueueFullDroppingEvent t],
                         metrics := (metrics s1)\<lparr>dropped := dropped (metrics s1) + 1\<rparr>\<rparr>)
         else (Some r, s1\<lparr>queue := heappush (ref_lt (objects s1)) (queue s1) r\<rparr>))"

definition start :: "'d EventLoop \<Rightarrow> 'd EventLoop" where
  "start s =
     (if running s then s
      else s\<lparr>running := True, workers := workers s @ [0 ..< nat (worker_count (config s))]\<rparr>)"

definition stop :: "'d EventLoop \<Rightarrow> 'd EventLoop" where
  "stop s = (if \<not> running s then s else s\<lparr>running := False, workers := []\<rparr>)"

text \<open>
  The back-off delay of \<^verbatim>\<open>_handle_failure\<close>,
  \<^verbatim>\<open>min(retry_delay_seconds * (2 ** (retry_count - 1)), max_retry_delay_seconds)\<close>,
  for the retry count after its increment. The two delays of the configuration are
  floats, as they are annotated and as their defaults are, and the values of floats are
  taken as exact numbers. With an exponent that is not negative the power is an integer,
  and the product converts it to a float: Python raises \<^verbatim>\<open>OverflowError\<close> for an
  integer too large for a float, which is one of magnitude \<open>2 ^ 1024 - 2 ^ 970\<close> or more.
  With a negative exponent the power is computed on floats, to which the exponent is
  converted. \<open>None\<close> is the \<^verbatim>\<open>OverflowError\<close>.
\<close>

definition int_fits_float :: "int \<Rightarrow> bool" where
  "int_fits_float x = (\<bar>x\<bar> < 2 ^ 1024 - 2 ^ 970)"

definition backoff_delay :: "EventLoopConfig \<Rightarrow> int \<Rightarrow> rat option" where
  "backoff_delay cfg retries =
     (if 0 \<le> retries - 1 then
        (if int_fits_float (2 ^ nat (retries - 1))
         then Some (min (retry_delay_seconds cfg * of_int (2 ^ nat (retries - 1)))
                        (max_retry_delay_seconds cfg))
         else None)
      else
        (if int_fits_float (retries - 1)
         then Some (min (retry_delay_seconds cfg * (1 / 2 ^ nat (1 - retries)))
                        (max_retry_delay_seconds cfg))
         else None))"

text \<open>
  While the worker sleeps, the producers run: a submission is the arguments of one call
  of \<^verbatim>\<open>emit\<close>, with its clock reading and the identifier of the new event.
\<close>

type_synonym 'd submission = "rat \<times> string \<times> EventType \<times> 'd \<times> EventPriority"

fun submit_all :: "'d submission list \<Rightarrow> 'd EventLoop \<Rightarrow> 'd EventLoop" where
  "submit_all [] s = s"
| "submit_all ((now, eid, t, d, p) # rest) s = submit_all rest (snd (emit now eid t d p s))"

text \<open>
  \<^verbatim>\<open>_handle_failure\<close>. \<open>arrivals k\<close> are the submissions that producers make during
  the \<open>k\<close>-th back-off sleep of the worker. The result is the state, with the text of
  the exception that leaves the method, if one does: the counters are already updated
  when the delay is computed.
\<close>

definition handle_failure ::
  "(nat \<Rightarrow> 'd submission list) \<Rightarrow> 'd EventLoop \<Rightarrow> nat \<Rightarrow> string \<Rightarrow> string option \<times> 'd EventLoop" where
  "handle_failure arrivals s r error =
     (let s1 = s\<lparr>metrics := (metrics s)\<lparr>failed := failed (metrics s) + 1\<rparr>\<rparr>;
          event = objects s1 r
      in if retry_count event < max_retries event then
           (let s2 = s1\<lparr>objects := (objects s1)(r := event\<lparr>retry_count := retry_count event + 1\<rparr>),
                        metrics := (metrics s1)\<lparr>retried := retried (metrics s1) + 1\<rparr>\<rparr>
            in case backoff_delay (config s2) (retry_count event + 1) of
                 None \<Rightarrow> (Some ''int too large to convert to float'', s2)
               | Some delay \<Rightarrow>
                   (let s3 = submit_all (arrivals (length (slept s2)))
                               (s2\<lparr>slept := slept s2 @ [delay]\<rparr>)
                    in if queue_full (max_queue_size (config s3)) (queue s3)
                       then (None, s3\<lparr>logged := logged s3 @ [QueueFullDroppingRetry (event_type event)],
                                       metrics := (metrics s3)\<lparr>dropped := dropped (metrics s3) + 1\<rparr>\<rparr>)
                       else (None, s3\<lparr>queue := heappush (ref_lt (objects s3)) (queue s3) r\<rparr>)))
         else (None, s1\<lparr>logged := logged s1 @
                 [FailedAfterRetries (event_type event) (max_retries event)]\<rparr>))"

text \<open>
  The body of the loop over the handlers in \<^verbatim>\<open>_process_event\<close>, for the handler at
  position \<open>i\<close>. An exception of \<^verbatim>\<open>_handle_failure\<close> is raised inside an
  \<^verbatim>\<open>except\<close> clause, so it leaves the loop.
\<close>

definition run_handler ::
  "(nat \<Rightarrow> 'd submission list) \<Rightarrow> 'd EventLoop \<Rightarrow> nat \<Rightarrow> nat \<Rightarrow> ('d Event \<Rightarrow> outcome)
     \<Rightarrow> string option \<times> 'd EventLoop" where
  "run_handler arrivals s r i h =
     (let event = objects s r;
          res = h event;
          s1 = s\<lparr>invocations := invocations s @ [(i, r, res)]\<rparr>
      in case res of
           Completed \<Rightarrow>
             (None, s1\<lparr>metrics := (metrics s1)\<lparr>processed := processed (metrics s1) + 1\<rparr>\<rparr>)
         | TimedOut \<Rightarrow>
             handle_failure arrivals
               (s1\<lparr>logged := logged s1 @ [HandlerTimeout (event_type event)]\<rparr>) r ''timeout''
         | Raised e \<Rightarrow>
             handle_failure arrivals
               (s1\<lparr>logged := logged s1 @ [HandlerError (event_type event) e]\<rparr>) r e)"

fun run_handlers ::
  "(nat \<Rightarrow> 'd submission list) \<Rightarrow> 'd EventLoop \<Rightarrow> nat \<Rightarrow> nat \<Rightarrow> ('d Event \<Rightarrow> outcome) list
     \<Rightarrow> string option \<times> 'd EventLoop" where
  "run_handlers arrivals s r i [] = (None, s)"
| "run_handlers arrivals s r i (h # hs) =
     (case run_handler arrivals s r i h of
        (None, s') \<Rightarrow> run_handlers arrivals s' r (Suc i) hs
      | (Some e, s') \<Rightarrow> (Some e, s'))"

definition process_event ::
  "(nat \<Rightarrow> 'd submission list) \<Rightarrow> 'd EventLoop \<Rightarrow> nat \<Rightarrow> string option \<times> 'd EventLoop" where
  "process_event arrivals s r =
     (let hs = handlers s (event_type (objects s r))
      in if hs = [] then (None, s\<lparr>logged := logged s @ [NoHandlers (event_type (objects s r))]\<rparr>)
         else run_handlers arrivals s r 0 hs)"

text \<open>
  One round of \<^verbatim>\<open>_worker_loop\<close>: when the queue is empty the wait times out and the
  round ends; otherwise the entry that \<^verbatim>\<open>heappop\<close> yields is processed. An
  exception that leaves \<^verbatim>\<open>_process_event\<close> is caught and logged by the worker.
\<close>

definition queue_get :: "'d EventLoop \<Rightarrow> (nat \<times> 'd EventLoop) option" where
  "queue_get s =
     (case heappop (ref_lt (objects s)) (queue s) of
        None \<Rightarrow> None
      | Some (r, q) \<Rightarrow> Some (r, s\<lparr>queue := q\<rparr>))"

definition worker_catch :: "string option \<times> 'd EventLoop \<Rightarrow> 'd EventLoop" where
  "worker_catch res =
     (case res of
        (None, s) \<Rightarrow> s
      | (Some e, s) \<Rightarrow> s\<lparr>logged := logged s @ [WorkerError e]\<rparr>)"

definition worker_round :: "(nat \<Rightarrow> 'd submission list) \<Rightarrow> 'd EventLoop \<Rightarrow> 'd EventLoop" where
  "worker_round arrivals s =
     (case queue_get s of
        None \<Rightarrow> s
      | Some (r, s') \<Rightarrow> worker_catch (process_event arrivals s' r))"

text \<open>
  \<^verbatim>\<open>_worker_loop\<close> of one worker, for a given number of rounds. Nothing else runs
  between the rounds, and during a round only what \<open>arrivals\<close> gives.
\<close>

fun worker_loop :: "(nat \<Rightarrow> 'd submission list) \<Rightarrow> nat \<Rightarrow> 'd EventLoop \<Rightarrow> 'd EventLoop" where
  "worker_loop arrivals 0 s = s"
| "worker_loop arrivals (Suc n) s =
     (if running s then worker_loop arrivals n (worker_round arrivals s) else s)"

section \<open>State manager (\<^verbatim>\<open>src/agent/state_manager.py\<close>)\<close>

datatype AgentState = IDLE | BUSY | SLEEPING

record StateConfig =
  sleep_after_idle_seconds :: rat
  wake_on_event :: bool
  battery_optimization :: bool

definition StateConfig_default :: StateConfig where
  "StateConfig_default =
     \<lparr>sleep_after_idle_seconds = 300, wake_on_event = True, battery_optimization = True\<rparr>"

text \<open>
  A callback is called with the state that was entered and can read the manager's
  \<^verbatim>\<open>current_state\<close>, its second argument here; it returns or raises an \<^verbatim>\<open>Exception\<close>.
\<close>

datatype callback_result = Returns | Raises string

type_synonym callback = "AgentState \<Rightarrow> AgentState \<Rightarrow> callback_result"

text \<open>
  The \<^verbatim>\<open>asyncio\<close> task that \<^verbatim>\<open>_schedule_sleep\<close> creates sleeps for the idle timeout
  and then calls \<^verbatim>\<open>set_sleeping\<close>. It is pending until its sleep is over or it is
  cancelled. The tasks created so far are kept in a list, a task being its position.
\<close>

datatype task_status = Pending | Cancelled | Done

datatype sm_log = StateCallbackError string

text \<open>
  The \<^verbatim>\<open>StateManager\<close> object. \<open>notified\<close> is the record of the callback calls made so
  far: the position of the callback in its list, the state it was called with, the
  \<^verbatim>\<open>current_state\<close> of the manager at the call, and how the call ended.
\<close>

record StateManager =
  sm_config :: StateConfig
  state :: AgentState
  state_changed_at :: rat
  last_activity_at :: rat
  callbacks :: "AgentState \<Rightarrow> callback list"
  sleep_task :: "nat option"
  tasks :: "task_status list"
  sm_logged :: "sm_log list"
  notified :: "(nat \<times> AgentState \<times> AgentState \<times> callback_result) list"

definition StateManager_init :: "rat \<Rightarrow> StateConfig \<Rightarrow> StateManager" where
  "StateManager_init now cfg =
     \<lparr>sm_config = cfg, state = IDLE, state_changed_at = now, last_activity_at = now,
      callbacks = (\<lambda>st. []), sleep_task = None, tasks = [], sm_logged = [], notified = []\<rparr>"

definition register_callback :: "AgentState \<Rightarrow> callback \<Rightarrow> StateManager \<Rightarrow> StateManager" where
  "register_callback st cb s = s\<lparr>callbacks := (callbacks s)(st := callbacks s st @ [cb])\<rparr>"

text \<open>\<^verbatim>\<open>_notify_callbacks\<close>: the loop over the callbacks, from position \<open>i\<close> on.\<close>

fun notify_from :: "StateManager \<Rightarrow> AgentState \<Rightarrow> nat \<Rightarrow> callback list \<Rightarrow> StateManager" where
  "notify_from s st i [] = s"
| "notify_from s st i (cb # cbs) =
     notify_from
       (case cb st (state s) of
          Returns \<Rightarrow> s\<lparr>notified := notified s @ [(i, st, state s, Returns)]\<rparr>
        | Raises e \<Rightarrow> s\<lparr>notified := notified s @ [(i, st, state s, Raises e)],
                        sm_logged := sm_logged s @ [StateCallbackError e]\<rparr>)
       st (Suc i) cbs"

definition notify_callbacks :: "StateManager \<Rightarrow> AgentState \<Rightarrow> StateManager" where
  "notify_callbacks s st = notify_from s st 0 (callbacks s st)"

text \<open>\<^verbatim>\<open>Task.cancel\<close>: only a pending task is affected.\<close>

definition cancel_task :: "nat \<Rightarrow> task_status list \<Rightarrow> task_status list" where
  "cancel_task t ts = (if t < length ts \<and> ts ! t = Pending then ts[t := Cancelled] else ts)"

definition transition_to :: "rat \<Rightarrow> AgentState \<Rightarrow> StateManager \<Rightarrow> StateManager" where
  "transition_to now new_state s =
     (if state s = new_state then s
      else
        (let s1 = s\<lparr>state := new_state, state_changed_at := now\<rparr>;
             s2 = (if new_state = BUSY then
                     (case sleep_task s1 of
                        None \<Rightarrow> s1\<lparr>last_activity_at := now\<rparr>
                      | Some t \<Rightarrow> s1\<lparr>last_activity_at := now,
                                      tasks := cancel_task t (tasks s1), sleep_task := None\<rparr>)
                   else s1)
         in notify_callbacks s2 new_state))"

definition schedule_sleep :: "StateManager \<Rightarrow> StateManager" where
  "schedule_sleep s =
     (let s1 = (case sleep_task s of
                  None \<Rightarrow> s
                | Some t \<Rightarrow> s\<lparr>tasks := cancel_task t (tasks s)\<rparr>)
      in s1\<lparr>sleep_task := Some (length (tasks s1)), tasks := tasks s1 @ [Pending]\<rparr>)"

definition set_busy :: "rat \<Rightarrow> StateManager \<Rightarrow> StateManager" where
  "set_busy now s = transition_to now BUSY s"

definition set_idle :: "rat \<Rightarrow> StateManager \<Rightarrow> StateManager" where
  "set_idle now s =
     (let s1 = transition_to now IDLE s
      in if battery_optimization (sm_config s1) then schedule_sleep s1 else s1)"

definition set_sleeping :: "rat \<Rightarrow> StateManager \<Rightarrow> StateManager" where
  "set_sleeping now s = transition_to now SLEEPING s"

text \<open>
  The sleep of task \<open>t\<close> is over (\<^verbatim>\<open>sleep_after_timeout\<close>): a pending task goes on to
  \<^verbatim>\<open>set_sleeping\<close> and is done; in a cancelled task the sleep raised
  \<^verbatim>\<open>CancelledError\<close> and nothing more runs.
\<close>

definition sleep_after_timeout :: "rat \<Rightarrow> nat \<Rightarrow> StateManager \<Rightarrow> StateManager" where
  "sleep_after_timeout now t s =
     (if t < length (tasks s) \<and> tasks s ! t = Pending
      then (let s1 = set_sleeping now s in s1\<lparr>tasks := (tasks s1)[t := Done]\<rparr>)
      else s)"

definition wake_if_sleeping :: "rat \<Rightarrow> StateManager \<Rightarrow> bool \<times> StateManager" where
  "wake_if_sleeping now s = (if state s = SLEEPING then (True, set_idle now s) else (False, s))"

definition activity :: "rat \<Rightarrow> StateManager \<Rightarrow> StateManager" where
  "activity now s = snd (wake_if_sleeping now (s\<lparr>last_activity_at := now\<rparr>))"

text \<open>
  What can happen to a state manager: a call of one of its methods, or the end of the
  sleep of one of its tasks. An execution is a list of these, each with the clock reading
  at which it happens.
\<close>

datatype sm_action =
    TransitionTo AgentState
  | SetBusy
  | SetIdle
  | SetSleeping
  | WakeIfSleeping
  | Activity
  | RegisterCallback AgentState callback
  | SleepOver nat

fun sm_step :: "rat \<times> sm_action \<Rightarrow> StateManager \<Rightarrow> StateManager" where
  "sm_step (now, TransitionTo st) s = transition_to now st s"
| "sm_step (now, SetBusy) s = set_busy now s"
| "sm_step (now, SetIdle) s = set_idle now s"
| "sm_step (now, SetSleeping) s = set_sleeping now s"
| "sm_step (now, WakeIfSleeping) s = snd (wake_if_sleeping now s)"
| "sm_step (now, Activity) s = activity now s"
| "sm_step (now, RegisterCallback st cb) s = register_callback st cb s"
| "sm_step (now, SleepOver t) s = sleep_after_timeout now t s"

fun sm_run :: "(rat \<times> sm_action) list \<Rightarrow> StateManager \<Rightarrow> StateManager" where
  "sm_run [] s = s"
| "sm_run (a # as) s = sm_run as (sm_step a s)"

section \<open>Memory manager (\<^verbatim>\<open>src/agent/memory_manager.py\<close>)\<close>

record MemoryConfig =
  unload_after_idle_seconds :: rat
  memory_check_interval_seconds :: rat
  memory_threshold_percent :: rat
  gc_threshold_mb :: rat

definition MemoryConfig_default :: MemoryConfig where
  "MemoryConfig_default =
     \<lparr>unload_after_idle_seconds = 300, memory_check_interval_seconds = 60,
      memory_threshold_percent = 85, gc_threshold_mb = 100\<rparr>"

text \<open>
  A factory is called without arguments; it returns a Python value, which may be
  \<^verbatim>\<open>None\<close>, or raises.
\<close>

datatype 'i factory_result = Produced "'i option" | FactoryRaised string

text \<open>
  What calling an unload callback on the instance comes to: it returns, it raises an
  \<^verbatim>\<open>Exception\<close>, or it raises an exception that is not an \<^verbatim>\<open>Exception\<close>
  (\<^verbatim>\<open>KeyboardInterrupt\<close>, \<^verbatim>\<open>SystemExit\<close>, \<^verbatim>\<open>asyncio.CancelledError\<close>), which
  \<^verbatim>\<open>except Exception\<close> does not catch. The text of the exception is given.
\<close>

datatype unload_result = Cleaned | UnloadRaised string | UnloadEscaped string

text \<open>
  An unload callback is a Python object. \<^verbatim>\<open>unload\<close> tests it with
  \<^verbatim>\<open>if self._unload_callback:\<close>, which takes its truth value: that of a function is
  true, that of an object with \<^verbatim>\<open>__bool__\<close> or \<^verbatim>\<open>__len__\<close> is what they say.
\<close>

record 'i callable =
  truthy :: bool
  call :: "'i \<Rightarrow> unload_result"

text \<open>
  The \<^verbatim>\<open>ComponentRef\<close> object. A factory may answer differently each time it is
  called, so \<open>factory\<close> gives the result of each call by the number of calls made before
  it, which \<open>factory_calls\<close> counts. \<open>unload_calls\<close> lists the instances the unload
  callback has been called on.
\<close>

record 'i ComponentRef =
  name :: string
  factory :: "nat \<Rightarrow> 'i factory_result"
  unload_callback :: "'i callable option"
  held_instance :: "'i option"
  last_accessed :: "rat option"
  access_count :: int
  loaded_at :: "rat option"
  factory_calls :: nat
  unload_calls :: "'i list"

definition ComponentRef_init ::
  "string \<Rightarrow> (nat \<Rightarrow> 'i factory_result) \<Rightarrow> 'i callable option \<Rightarrow> 'i ComponentRef" where
  "ComponentRef_init n f cb =
     \<lparr>name = n, factory = f, unload_callback = cb, held_instance = None,
      last_accessed = None, access_count = 0, loaded_at = None,
      factory_calls = 0, unload_calls = []\<rparr>"

definition is_loaded :: "'i ComponentRef \<Rightarrow> bool" where
  "is_loaded c = (held_instance c \<noteq> None)"

text \<open>\<^verbatim>\<open>idle_duration\<close>: infinite for a component that was never accessed.\<close>

datatype duration = Seconds rat | Forever

definition idle_duration :: "rat \<Rightarrow> 'i ComponentRef \<Rightarrow> duration" where
  "idle_duration now c =
     (case last_accessed c of None \<Rightarrow> Forever | Some t \<Rightarrow> Seconds (now - t))"

fun exceeds :: "duration \<Rightarrow> rat \<Rightarrow> bool" where
  "exceeds Forever threshold = True"
| "exceeds (Seconds d) threshold = (threshold < d)"

text \<open>
  \<^verbatim>\<open>ComponentRef.load\<close>. The result is the value returned, or \<open>Inl\<close> with the text of
  the exception that the factory raised, which nothing in \<^verbatim>\<open>load\<close> catches.
\<close>

definition load :: "rat \<Rightarrow> 'i ComponentRef \<Rightarrow> (string + 'i option) \<times> 'i ComponentRef" where
  "load now c =
     (case held_instance c of
        None \<Rightarrow>
          (case factory c (factory_calls c) of
             FactoryRaised e \<Rightarrow> (Inl e, c\<lparr>factory_calls := Suc (factory_calls c)\<rparr>)
           | Produced v \<Rightarrow>
               (Inr v, c\<lparr>held_instance := v, loaded_at := Some now,
                          factory_calls := Suc (factory_calls c),
                          last_accessed := Some now, access_count := access_count c + 1\<rparr>))
      | Some i \<Rightarrow>
          (Inr (Some i), c\<lparr>last_accessed := Some now, access_count := access_count c + 1\<rparr>))"

datatype mm_log = AlreadyRegistered string | NotRegistered string | ErrorUnloading string string

text \<open>
  \<^verbatim>\<open>ComponentRef.unload\<close>: the component after the call, what the call writes to
  the log, and the text of the exception that leaves the method, if one does. The
  assignment \<^verbatim>\<open>self._instance = None\<close> comes after the \<^verbatim>\<open>try\<close> statement, so an
  exception that the \<^verbatim>\<open>except\<close> clause does not catch leaves the instance in place.
\<close>

definition unload :: "'i ComponentRef \<Rightarrow> 'i ComponentRef \<times> mm_log list \<times> string option" where
  "unload c =
     (case held_instance c of
        None \<Rightarrow> (c, [], None)
      | Some i \<Rightarrow>
          (case unload_callback c of
             None \<Rightarrow> (c\<lparr>held_instance := None\<rparr>, [], None)
           | Some cb \<Rightarrow>
               if truthy cb then
                 (case call cb i of
                    Cleaned \<Rightarrow>
                      (c\<lparr>unload_calls := unload_calls c @ [i], held_instance := None\<rparr>, [], None)
                  | UnloadRaised e \<Rightarrow>
                      (c\<lparr>unload_calls := unload_calls c @ [i], held_instance := None\<rparr>,
                       [ErrorUnloading (name c) e], None)
                  | UnloadEscaped e \<Rightarrow>
                      (c\<lparr>unload_calls := unload_calls c @ [i]\<rparr>, [], Some e))
               else (c\<lparr>held_instance := None\<rparr>, [], None)))"

text \<open>
  The \<^verbatim>\<open>MemoryManager\<close> object: the registry is a dictionary, kept here as the list of
  its items in insertion order. The monitoring of the process memory is left out.
\<close>

record 'i MemoryManager =
  mm_config :: MemoryConfig
  components :: "(string \<times> 'i ComponentRef) list"
  mm_logged :: "mm_log list"

definition MemoryManager_init :: "MemoryConfig \<Rightarrow> 'i MemoryManager" where
  "MemoryManager_init cfg = \<lparr>mm_config = cfg, components = [], mm_logged = []\<rparr>"

definition register_component ::
  "string \<Rightarrow> (nat \<Rightarrow> 'i factory_result) \<Rightarrow> 'i callable option \<Rightarrow> 'i MemoryManager
     \<Rightarrow> 'i ComponentRef \<times> 'i MemoryManager" where
  "register_component n f cb mm =
     (let mm1 = (if map_of (components mm) n \<noteq> None
                 then mm\<lparr>mm_logged := mm_logged mm @ [AlreadyRegistered n]\<rparr> else mm);
          component = ComponentRef_init n f cb
      in (component, mm1\<lparr>components := AList.update n component (components mm1)\<rparr>))"

definition get_component ::
  "rat \<Rightarrow> string \<Rightarrow> 'i MemoryManager \<Rightarrow> (string + 'i option) \<times> 'i MemoryManager" where
  "get_component now n mm =
     (case map_of (components mm) n of
        None \<Rightarrow> (Inr None, mm\<lparr>mm_logged := mm_logged mm @ [NotRegistered n]\<rparr>)
      | Some component \<Rightarrow>
          (case load now component of
             (res, component') \<Rightarrow>
               (res, mm\<lparr>components := AList.update n component' (components mm)\<rparr>)))"

text \<open>
  \<^verbatim>\<open>unload_component\<close>: the value returned, or \<open>Inl\<close> with the text of the
  exception that left \<^verbatim>\<open>unload\<close>.
\<close>

definition unload_component ::
  "string \<Rightarrow> 'i MemoryManager \<Rightarrow> (string + bool) \<times> 'i MemoryManager" where
  "unload_component n mm =
     (case map_of (components mm) n of
        None \<Rightarrow> (Inr False, mm)
      | Some component \<Rightarrow>
          (case unload component of
             (component', lg, exc) \<Rightarrow>
               (case exc of None \<Rightarrow> Inr True | Some e \<Rightarrow> Inl e,
                mm\<lparr>components := AList.update n component' (components mm),
                   mm_logged := mm_logged mm @ lg\<rparr>)))"

text \<open>The test of \<^verbatim>\<open>unload_idle_components\<close> on one component, at clock reading \<open>now\<close>.\<close>

definition idle_too_long :: "rat \<Rightarrow> rat \<Rightarrow> 'i ComponentRef \<Rightarrow> bool" where
  "idle_too_long now threshold component =
     (is_loaded component \<and> exceeds (idle_duration now component) threshold)"

text \<open>
  The loop of \<^verbatim>\<open>unload_idle_components\<close> over the items of the registry, in their
  order: the items after the loop, the names unloaded, what was logged, and the text of
  the exception that ended the loop, if \<^verbatim>\<open>unload\<close> let one through; the items after
  that one are not looked at then. The sweep reads the clock once.
\<close>

fun unload_idle_items ::
  "rat \<Rightarrow> rat \<Rightarrow> (string \<times> 'i ComponentRef) list
     \<Rightarrow> (string \<times> 'i ComponentRef) list \<times> string list \<times> mm_log list \<times> string option" where
  "unload_idle_items now threshold [] = ([], [], [], None)"
| "unload_idle_items now threshold ((n, component) # items) =
     (if idle_too_long now threshold component then
        (case unload component of
           (component', lg, Some e) \<Rightarrow> ((n, component') # items, [], lg, Some e)
         | (component', lg, None) \<Rightarrow>
             (case unload_idle_items now threshold items of
                (items', unloaded, lg', exc) \<Rightarrow>
                  ((n, component') # items', n # unloaded, lg @ lg', exc)))
      else
        (case unload_idle_items now threshold items of
           (items', unloaded, lg, exc) \<Rightarrow> ((n, component) # items', unloaded, lg, exc)))"

text \<open>
  \<^verbatim>\<open>unload_idle_components\<close>: the list of names returned, or \<open>Inl\<close> with the text of
  the exception that ended the loop.
\<close>

definition unload_idle_components ::
  "rat \<Rightarrow> 'i MemoryManager \<Rightarrow> (string + string list) \<times> 'i MemoryManager" where
  "unload_idle_components now mm =
     (case unload_idle_items now (unload_after_idle_seconds (mm_config mm)) (components mm) of
        (items', unloaded, lg, exc) \<Rightarrow>
          (case exc of None \<Rightarrow> Inr unloaded | Some e \<Rightarrow> Inl e,
           mm\<lparr>components := items', mm_logged := mm_logged mm @ lg\<rparr>))"

text \<open>The loop of \<^verbatim>\<open>unload_all\<close> over the components of the registry.\<close>

fun unload_items ::
  "(string \<times> 'i ComponentRef) list
     \<Rightarrow> (string \<times> 'i ComponentRef) list \<times> mm_log list \<times> string option" where
  "unload_items [] = ([], [], None)"
| "unload_items ((n, component) # items) =
     (case unload component of
        (component', lg, Some e) \<Rightarrow> ((n, component') # items, lg, Some e)
      | (component', lg, None) \<Rightarrow>
          (case unload_items items of
             (items', lg', exc) \<Rightarrow> ((n, component') # items', lg @ lg', exc)))"

definition unload_all :: "'i MemoryManager \<Rightarrow> string option \<times> 'i MemoryManager" where
  "unload_all mm =
     (case unload_items (components mm) of
        (items', lg, exc) \<Rightarrow>
           (exc, mm\<lparr>components := items', mm_logged := mm_logged mm @ lg\<rparr>))"

text \<open>Calls of \<^verbatim>\<open>get_component\<close> for one name, one after the other, at the given clock readings.\<close>

fun get_repeatedly ::
  "rat list \<Rightarrow> string \<Rightarrow> 'i MemoryManager \<Rightarrow> (string + 'i option) list \<times> 'i MemoryManager" where
  "get_repeatedly [] n mm = ([], mm)"
| "get_repeatedly (now # nows) n mm =
     (case get_component now n mm of
        (res, mm') \<Rightarrow>
          (case get_repeatedly nows n mm' of (ress, mm'') \<Rightarrow> (res # ress, mm'')))"

section \<open>Invariants of the state manager\<close>

text \<open>Among the tasks \<open>ts\<close>, only the one that \<open>w\<close> names can be pending.\<close>

definition only_pending :: "nat option \<Rightarrow> task_status list \<Rightarrow> bool" where
  "only_pending w ts = (\<forall>u. u < length ts \<and> ts ! u = Pending \<longrightarrow> w = Some u)"

text \<open>
  What holds of a state manager throughout an execution: the only task that can be
  pending is the one \<open>sleep_task\<close> refers to, which is one of the tasks created, and there
  is none while the state is BUSY.
\<close>

definition no_stale_timer :: "StateManager \<Rightarrow> bool" where
  "no_stale_timer s =
     (only_pending (sleep_task s) (tasks s)
      \<and> (\<forall>t. sleep_task s = Some t \<longrightarrow> t < length (tasks s))
      \<and> (state s = BUSY \<longrightarrow> sleep_task s = None))"

text \<open>Task \<open>t\<close> exists and its status is one of \<open>S\<close>.\<close>

definition task_in :: "task_status set \<Rightarrow> nat \<Rightarrow> StateManager \<Rightarrow> bool" where
  "task_in S t s = (t < length (tasks s) \<and> tasks s ! t \<in> S)"

section \<open>Events whose back-off delay can be computed\<close>

text \<open>
  The event at \<open>r\<close> has been created, its retry count is not negative and its
  \<open>max_retries\<close> is at most 1024: the back-off delay of each of its retries is within
  the range of floats.
\<close>

definition backoff_safe :: "nat \<Rightarrow> 'd EventLoop \<Rightarrow> bool" where
  "backoff_safe r s =
     (r < next_ref s \<and> 0 \<le> retry_count (objects s r) \<and> max_retries (objects s r) \<le> 1024)"

section \<open>Scenarios\<close>

text \<open>
  Concrete handlers, dispatchers, state managers and registries, on which the theorems
  below are instantiated.
\<close>

definition always_raising :: "unit Event \<Rightarrow> outcome" where
  "always_raising e = Raised ''boom''"

definition completing :: "unit Event \<Rightarrow> outcome" where
  "completing e = Completed"

definition failing_dispatcher :: "unit EventLoop" where
  "failing_dispatcher =
     snd (emit 0 ''evt_1'' USER () NORMAL
       (start (register_handler USER always_raising (EventLoop_init EventLoopConfig_default))))"

definition failing_dispatcher_two :: "unit EventLoop" where
  "failing_dispatcher_two =
     (start (register_handler USER always_raising (EventLoop_init EventLoopConfig_default)))
       \<lparr>objects := (\<lambda>r. \<lparr>event_type = USER, data = (), priority = NORMAL, timestamp = 0,
                          retry_count = 0, max_retries = 2, event_id = ''evt_1''\<rparr>),
        next_ref := 1, queue := [0]\<rparr>"

text \<open>An event that may be retried two thousand times.\<close>

definition persistent_dispatcher :: "unit EventLoop" where
  "persistent_dispatcher =
     (start (register_handler USER always_raising (EventLoop_init EventLoopConfig_default)))
       \<lparr>objects := (\<lambda>r. \<lparr>event_type = USER, data = (), priority = NORMAL, timestamp = 0,
                          retry_count = 0, max_retries = 2000, event_id = ''evt_1''\<rparr>),
        next_ref := 1, queue := [0]\<rparr>"

text \<open>No producer submits anything while the worker sleeps.\<close>

definition no_arrivals :: "nat \<Rightarrow> unit submission list" where
  "no_arrivals k = []"

text \<open>
  A queue of capacity one, and a producer that submits one event during the first
  back-off sleep of the worker.
\<close>

definition crowded_dispatcher :: "unit EventLoop" where
  "crowded_dispatcher =
     snd (emit 0 ''evt_1'' USER () NORMAL
       (start (register_handler USER always_raising
          (EventLoop_init (EventLoopConfig_default\<lparr>max_queue_size := 1\<rparr>)))))"

definition one_arrival :: "nat \<Rightarrow> unit submission list" where
  "one_arrival k = (if k = 0 then [(5, ''evt_2'', USER, (), NORMAL)] else [])"

definition two_handler_dispatcher :: "unit EventLoop" where
  "two_handler_dispatcher =
     snd (emit 0 ''evt_1'' USER () NORMAL
       (start (register_handler USER completing (register_handler USER completing
          (EventLoop_init EventLoopConfig_default)))))"

definition small_dispatcher :: "unit EventLoop" where
  "small_dispatcher = EventLoop_init (EventLoopConfig_default\<lparr>max_queue_size := 1\<rparr>)"

definition started_dispatcher :: "unit EventLoop" where
  "started_dispatcher =
     start (register_handler USER completing (EventLoop_init EventLoopConfig_default))"

definition background_submitted :: "unit EventLoop" where
  "background_submitted = snd (emit 0 ''evt_1'' USER () BACKGROUND started_dispatcher)"

definition critical_submitted :: "unit EventLoop" where
  "critical_submitted = snd (emit 1 ''evt_2'' USER () CRITICAL background_submitted)"

definition quiet_callback :: callback where
  "quiet_callback st current = Returns"

definition raising_callback :: callback where
  "raising_callback st current = Raises ''boom''"

definition watched_manager :: StateManager where
  "watched_manager =
     register_callback IDLE quiet_callback
       (register_callback BUSY quiet_callback
         (register_callback BUSY raising_callback (StateManager_init 0 StateConfig_default)))"

definition fresh_manager :: StateManager where
  "fresh_manager = StateManager_init 0 StateConfig_default"

definition null_factory :: "nat \<Rightarrow> nat factory_result" where
  "null_factory k = Produced None"

definition token_factory :: "nat \<Rightarrow> nat factory_result" where
  "token_factory k = Produced (Some (100 + k))"

definition raising_unload :: "nat callable" where
  "raising_unload = \<lparr>truthy = True, call = (\<lambda>i. UnloadRaised ''busy'')\<rparr>"

text \<open>An unload callback that ends the process with \<^verbatim>\<open>sys.exit\<close>.\<close>

definition exiting_unload :: "nat callable" where
  "exiting_unload = \<lparr>truthy = True, call = (\<lambda>i. UnloadEscaped ''SystemExit'')\<rparr>"

definition empty_registry :: "nat MemoryManager" where
  "empty_registry = MemoryManager_init MemoryConfig_default"

definition null_registry :: "nat MemoryManager" where
  "null_registry = snd (register_component ''null'' null_factory None empty_registry)"

definition token_registry :: "nat MemoryManager" where
  "token_registry = snd (register_component ''brain'' token_factory (Some raising_unload) empty_registry)"

definition loaded_brain :: "nat ComponentRef" where
  "loaded_brain = snd (load 1 (ComponentRef_init ''brain'' token_factory (Some raising_unload)))"

definition stuck_brain :: "nat ComponentRef" where
  "stuck_brain = snd (load 1 (ComponentRef_init ''brain'' token_factory (Some exiting_unload)))"

definition loaded_registry :: "nat MemoryManager" where
  "loaded_registry = snd (get_component 1 ''brain'' token_registry)"

definition two_loaded :: "nat MemoryManager" where
  "two_loaded =
     snd (get_component 200 ''voice''
       (snd (get_component 0 ''brain''
         (snd (register_component ''voice'' token_factory None
           (snd (register_component ''brain'' token_factory None empty_registry)))))))"

text \<open>Two loaded components, the first with an unload callback that ends the process.\<close>

definition stuck_registry :: "nat MemoryManager" where
  "stuck_registry =
     snd (get_component 0 ''voice''
       (snd (get_component 0 ''brain''
         (snd (register_component ''voice'' token_factory None
           (snd (register_component ''brain'' token_factory (Some exiting_unload)
              empty_registry)))))))"

section \<open>Properties of the event loop\<close>

subsection \<open>The queue\<close>

lemma length_siftdown [simp]: "length (siftdown lt heap startpos pos newitem) = length heap"
proof (induction lt heap startpos pos newitem rule: siftdown.induct)
  case (1 lt heap startpos pos newitem)
  show ?case
    using 1 by (subst siftdown.simps) simp
qed

lemma length_heappush [simp]: "length (heappush lt heap item) = Suc (length heap)"
  by (simp add: heappush_def)

lemma mset_swap_update:
  assumes "i < length xs" "j < length xs" "i \<noteq> j"
  shows "mset (xs[i := xs ! j, j := x]) = mset (xs[i := x])"
  using assms by (simp add: mset_update nth_list_update)

lemma mset_siftdown:
  "pos < length heap \<Longrightarrow> mset (siftdown lt heap startpos pos newitem) = mset (heap[pos := newitem])"
proof (induction lt heap startpos pos newitem rule: siftdown.induct)
  case (1 lt heap startpos pos newitem)
  show ?case
  proof (cases "startpos < pos \<and> lt newitem (heap ! ((pos - 1) div 2))")
    case True
    then have lt: "(pos - 1) div 2 < pos" by auto
    have "mset (siftdown lt heap startpos pos newitem) =
        mset (siftdown lt (heap[pos := heap ! ((pos - 1) div 2)]) startpos ((pos - 1) div 2) newitem)"
      using True by (subst siftdown.simps) simp
    also have "\<dots> = mset (heap[pos := heap ! ((pos - 1) div 2), (pos - 1) div 2 := newitem])"
      using True 1 lt by simp
    also have "\<dots> = mset (heap[pos := newitem])"
      using lt "1.prems" by (intro mset_swap_update) auto
    finally show ?thesis .
  next
    case False
    then show ?thesis by (subst siftdown.simps) auto
  qed
qed

lemma mset_heappush [simp]: "mset (heappush lt heap item) = add_mset item (mset heap)"
  by (simp add: heappush_def mset_siftdown)

lemma set_heappush [simp]: "set (heappush lt heap item) = insert item (set heap)"
proof -
  have "mset (heappush lt heap item) = mset (item # heap)"
    by simp
  then have "set (heappush lt heap item) = set (item # heap)"
    by (rule mset_eq_setD)
  then show ?thesis by simp
qed

lemma heappush_empty [simp]: "heappush lt [] x = [x]"
  by (simp add: heappush_def siftdown.simps)

lemma heappush_single: "heappush lt [x] y = (if lt y x then [y, x] else [x, y])"
  by (simp add: heappush_def siftdown.simps)

lemma heappop_single [simp]: "heappop lt [x] = Some (x, [])"
  by (simp add: heappop_def)

lemma heappop_pair [simp]: "heappop lt [x, y] = Some (x, [y])"
  by (simp add: heappop_def siftup_def bubble_up.simps siftdown.simps)

lemma queue_full_empty [simp]: "\<not> queue_full m []"
  by (simp add: queue_full_def)

lemma emit_accepted:
  assumes "emit now eid t d p s = (Some a, s')"
  shows "a = next_ref s"
    and "s' = s\<lparr>objects := (objects s)(next_ref s := \<lparr>event_type = t, data = d, priority = p,
                   timestamp = now, retry_count = 0, max_retries = 3, event_id = eid\<rparr>),
               next_ref := Suc (next_ref s),
               queue := heappush (ref_lt ((objects s)(next_ref s := \<lparr>event_type = t, data = d,
                   priority = p, timestamp = now, retry_count = 0, max_retries = 3,
                   event_id = eid\<rparr>))) (queue s) (next_ref s)\<rparr>"
  using assms by (auto simp: emit_def Let_def split: if_splits)

lemma emit_not_full:
  assumes "\<not> queue_full (max_queue_size (config s)) (queue s)"
  shows "emit now eid t d p s =
     (Some (next_ref s),
      s\<lparr>objects := (objects s)(next_ref s := \<lparr>event_type = t, data = d, priority = p,
            timestamp = now, retry_count = 0, max_retries = 3, event_id = eid\<rparr>),
        next_ref := Suc (next_ref s),
        queue := heappush (ref_lt ((objects s)(next_ref s := \<lparr>event_type = t, data = d,
            priority = p, timestamp = now, retry_count = 0, max_retries = 3,
            event_id = eid\<rparr>))) (queue s) (next_ref s)\<rparr>)"
  using assms by (simp add: emit_def Let_def)

subsection \<open>The back-off delay\<close>

lemma pow2_fits_float: "int_fits_float (2 ^ n) \<longleftrightarrow> n \<le> 1023"
proof
  assume fits: "int_fits_float (2 ^ n)"
  show "n \<le> 1023"
  proof (rule ccontr)
    assume "\<not> n \<le> 1023"
    then have "1024 \<le> n" by simp
    then have "(2::int) ^ 1024 \<le> 2 ^ n"
      by (intro power_increasing) simp_all
    moreover have "(0::int) < 2 ^ 970" by simp
    ultimately show False
      using fits by (simp add: int_fits_float_def)
  qed
next
  assume "n \<le> 1023"
  then have a: "(2::int) ^ n \<le> 2 ^ 1023"
    by (intro power_increasing) simp_all
  have "(2::int) ^ 970 < 2 ^ 1023"
    by (intro power_strict_increasing) simp_all
  moreover have "(2::int) ^ 1024 = 2 * 2 ^ 1023"
    by (simp only: power_Suc [symmetric]) simp
  ultimately have "(2::int) ^ 1023 < 2 ^ 1024 - 2 ^ 970"
    by linarith
  then show "int_fits_float (2 ^ n)"
    using a by (simp add: int_fits_float_def)
qed

lemma backoff_delay_fits:
  assumes "1 \<le> n" and "n \<le> 1024"
  shows "\<exists>d. backoff_delay cfg n = Some d"
proof -
  have "nat (n - 1) \<le> 1023" using assms by simp
  then show ?thesis
    using assms(1) by (simp add: backoff_delay_def pow2_fits_float del: power_numeral)
qed

lemma backoff_delay_overflow:
  assumes "1025 \<le> n"
  shows "backoff_delay cfg n = None"
proof -
  have "\<not> nat (n - 1) \<le> 1023" using assms by simp
  then show ?thesis
    using assms by (simp add: backoff_delay_def pow2_fits_float)
qed

subsection \<open>Submissions during a back-off sleep\<close>

lemma emit_frame:
  "invocations (snd (emit now eid t d p s)) = invocations s"
  "processed (metrics (snd (emit now eid t d p s))) = processed (metrics s)"
  "failed (metrics (snd (emit now eid t d p s))) = failed (metrics s)"
  "retried (metrics (snd (emit now eid t d p s))) = retried (metrics s)"
  "handlers (snd (emit now eid t d p s)) = handlers s"
  "running (snd (emit now eid t d p s)) = running s"
  "config (snd (emit now eid t d p s)) = config s"
  "slept (snd (emit now eid t d p s)) = slept s"
  by (simp_all add: emit_def Let_def)

lemma emit_queue: "set (queue s) \<subseteq> set (queue (snd (emit now eid t d p s)))"
  by (auto simp: emit_def Let_def)

lemma emit_next_ref: "next_ref (snd (emit now eid t d p s)) = Suc (next_ref s)"
  by (simp add: emit_def Let_def)

lemma emit_objects: "r < next_ref s \<Longrightarrow> objects (snd (emit now eid t d p s)) r = objects s r"
  by (simp add: emit_def Let_def)

lemma submit_all_frame:
  "invocations (submit_all xs s) = invocations s"
  "processed (metrics (submit_all xs s)) = processed (metrics s)"
  "failed (metrics (submit_all xs s)) = failed (metrics s)"
  "retried (metrics (submit_all xs s)) = retried (metrics s)"
  "handlers (submit_all xs s) = handlers s"
  "running (submit_all xs s) = running s"
  "config (submit_all xs s) = config s"
  "slept (submit_all xs s) = slept s"
  by (induction xs s rule: submit_all.induct; simp add: emit_frame)+

lemma submit_all_queue: "set (queue s) \<subseteq> set (queue (submit_all xs s))"
proof (induction xs s rule: submit_all.induct)
  case (1 s)
  show ?case by simp
next
  case (2 now eid t d p rest s)
  show ?case
    using emit_queue [of s now eid t d p] 2 by auto
qed

lemma submit_all_next_ref: "next_ref s \<le> next_ref (submit_all xs s)"
proof (induction xs s rule: submit_all.induct)
  case (1 s)
  show ?case by simp
next
  case (2 now eid t d p rest s)
  show ?case
    using 2 by (simp add: emit_next_ref)
qed

lemma submit_all_objects: "r < next_ref s \<Longrightarrow> objects (submit_all xs s) r = objects s r"
proof (induction xs s rule: submit_all.induct)
  case (1 s)
  show ?case by simp
next
  case (2 now eid t d p rest s)
  have "r < next_ref (snd (emit now eid t d p s))"
    using "2.prems" by (simp add: emit_next_ref)
  then show ?case
    using 2 by (simp add: emit_objects)
qed

subsection \<open>Handler calls and the counters\<close>

lemma handle_failure_invocations [simp]:
  "invocations (snd (handle_failure arr s r e)) = invocations s"
  by (simp add: handle_failure_def Let_def submit_all_frame split: option.split)

lemma handle_failure_processed [simp]:
  "processed (metrics (snd (handle_failure arr s r e))) = processed (metrics s)"
  by (simp add: handle_failure_def Let_def submit_all_frame split: option.split)

lemma handle_failure_failed [simp]:
  "failed (metrics (snd (handle_failure arr s r e))) = failed (metrics s) + 1"
  by (simp add: handle_failure_def Let_def submit_all_frame split: option.split)

lemma handle_failure_handlers [simp]:
  "handlers (snd (handle_failure arr s r e)) = handlers s"
  by (simp add: handle_failure_def Let_def submit_all_frame split: option.split)

lemma submit_all_queue_mem: "x \<in> set (queue s) \<Longrightarrow> x \<in> set (queue (submit_all xs s))"
  using submit_all_queue [of s xs] by blast

lemma handle_failure_queue: "set (queue s) \<subseteq> set (queue (snd (handle_failure arr s r e)))"
  by (auto simp: handle_failure_def Let_def submit_all_queue_mem split: option.split)

lemma handle_failure_raises:
  "fst (handle_failure arr s r e) =
     (if retry_count (objects s r) < max_retries (objects s r)
         \<and> backoff_delay (config s) (retry_count (objects s r) + 1) = None
      then Some ''int too large to convert to float'' else None)"
  by (simp add: handle_failure_def Let_def split: option.split)

lemma handle_failure_next_ref: "next_ref s \<le> next_ref (snd (handle_failure arr s r e))"
proof -
  have "next_ref s \<le> next_ref (submit_all xs (s\<lparr>objects := ob, metrics := m, slept := sl\<rparr>))"
    for xs ob m sl
    using submit_all_next_ref [of "s\<lparr>objects := ob, metrics := m, slept := sl\<rparr>" xs] by simp
  then show ?thesis
    by (simp add: handle_failure_def Let_def split: option.split)
qed

lemma handle_failure_objects:
  "r' < next_ref s \<Longrightarrow>
     objects (snd (handle_failure arr s r e)) r' =
       (if r' = r \<and> retry_count (objects s r) < max_retries (objects s r)
        then (objects s r)\<lparr>retry_count := retry_count (objects s r) + 1\<rparr>
        else objects s r')"
  by (simp add: handle_failure_def Let_def submit_all_objects split: option.split)

lemma handle_failure_safe:
  assumes "backoff_safe r s"
  shows "fst (handle_failure arr s r e) = None \<and> backoff_safe r (snd (handle_failure arr s r e))"
proof -
  have r: "r < next_ref s" and rc: "0 \<le> retry_count (objects s r)"
    and mx: "max_retries (objects s r) \<le> 1024"
    using assms by (simp_all add: backoff_safe_def)
  have "backoff_delay (config s) (retry_count (objects s r) + 1) \<noteq> None"
    if "retry_count (objects s r) < max_retries (objects s r)"
    using backoff_delay_fits [of "retry_count (objects s r) + 1" "config s"] that rc mx by auto
  then have a: "fst (handle_failure arr s r e) = None"
    by (auto simp: handle_failure_raises)
  have b: "r < next_ref (snd (handle_failure arr s r e))"
    using handle_failure_next_ref [of s arr r e] r by simp
  show ?thesis
    using a b rc mx by (simp add: backoff_safe_def handle_failure_objects [OF r])
qed

lemma run_handler_invocations [simp]:
  "invocations (snd (run_handler arr s r i h)) = invocations s @ [(i, r, h (objects s r))]"
  by (simp add: run_handler_def Let_def split: outcome.split)

lemma run_handler_processed:
  "processed (metrics (snd (run_handler arr s r i h))) =
     processed (metrics s) + (if h (objects s r) = Completed then 1 else 0)"
  by (simp add: run_handler_def Let_def split: outcome.split)

lemma run_handler_failed:
  "failed (metrics (snd (run_handler arr s r i h))) =
     failed (metrics s) + (if h (objects s r) = Completed then 0 else 1)"
  by (simp add: run_handler_def Let_def split: outcome.split)

lemma run_handler_handlers [simp]:
  "handlers (snd (run_handler arr s r i h)) = handlers s"
  by (simp add: run_handler_def Let_def split: outcome.split)

lemma run_handler_completed:
  "h (objects s r) = Completed \<Longrightarrow>
     fst (run_handler arr s r i h) = None \<and> objects (snd (run_handler arr s r i h)) = objects s"
  by (simp add: run_handler_def Let_def)

lemma run_handler_safe:
  assumes "backoff_safe r s"
  shows "fst (run_handler arr s r i h) = None \<and> backoff_safe r (snd (run_handler arr s r i h))"
proof (cases "h (objects s r)")
  case Completed
  then show ?thesis
    using assms by (simp add: run_handler_def Let_def backoff_safe_def)
next
  case TimedOut
  let ?s1 = "s\<lparr>invocations := invocations s @ [(i, r, TimedOut)],
      logged := logged s @ [HandlerTimeout (event_type (objects s r))]\<rparr>"
  have "backoff_safe r ?s1" using assms by (simp add: backoff_safe_def)
  then show ?thesis
    using handle_failure_safe [of r ?s1 arr "''timeout''"] TimedOut
    by (simp add: run_handler_def Let_def)
next
  case (Raised e)
  let ?s1 = "s\<lparr>invocations := invocations s @ [(i, r, Raised e)],
      logged := logged s @ [HandlerError (event_type (objects s r)) e]\<rparr>"
  have "backoff_safe r ?s1" using assms by (simp add: backoff_safe_def)
  then show ?thesis
    using handle_failure_safe [of r ?s1 arr e] Raised
    by (simp add: run_handler_def Let_def)
qed

lemma run_handler_queue: "set (queue s) \<subseteq> set (queue (snd (run_handler arr s r i h)))"
proof (cases "h (objects s r)")
  case Completed
  then show ?thesis by (simp add: run_handler_def Let_def)
next
  case TimedOut
  then show ?thesis
    using handle_failure_queue [of "s\<lparr>invocations := invocations s @ [(i, r, TimedOut)],
      logged := logged s @ [HandlerTimeout (event_type (objects s r))]\<rparr>" arr r "''timeout''"]
    by (simp add: run_handler_def Let_def)
next
  case (Raised e)
  then show ?thesis
    using handle_failure_queue [of "s\<lparr>invocations := invocations s @ [(i, r, Raised e)],
      logged := logged s @ [HandlerError (event_type (objects s r)) e]\<rparr>" arr r e]
    by (simp add: run_handler_def Let_def)
qed

lemma run_handlers_step:
  "run_handlers arr s r i (h # hs) =
     (if fst (run_handler arr s r i h) = None
      then run_handlers arr (snd (run_handler arr s r i h)) r (Suc i) hs
      else run_handler arr s r i h)"
  by (cases "run_handler arr s r i h") (auto split: option.split)

lemma run_handlers_invocations:
  "\<exists>new. invocations (snd (run_handlers arr s r i hs)) = invocations s @ new
      \<and> length new \<le> length hs
      \<and> (fst (run_handlers arr s r i hs) = None \<longrightarrow> length new = length hs)
      \<and> (\<forall>c \<in> set new. fst (snd c) = r)"
proof (induction hs arbitrary: s i)
  case Nil
  show ?case by simp
next
  case (Cons h hs)
  let ?s = "snd (run_handler arr s r i h)"
  show ?case
  proof (cases "fst (run_handler arr s r i h) = None")
    case False
    then have "run_handlers arr s r i (h # hs) = run_handler arr s r i h"
      by (subst run_handlers_step) (rule if_not_P)
    then have "invocations (snd (run_handlers arr s r i (h # hs))) = invocations s @ [(i, r, h (objects s r))]
        \<and> length [(i, r, h (objects s r))] \<le> length (h # hs)
        \<and> (fst (run_handlers arr s r i (h # hs)) = None \<longrightarrow>
              length [(i, r, h (objects s r))] = length (h # hs))
        \<and> (\<forall>c \<in> set [(i, r, h (objects s r))]. fst (snd c) = r)"
      using False by (auto simp del: run_handlers.simps)
    then show ?thesis by (rule exI [of _ "[(i, r, h (objects s r))]"])
  next
    case True
    then have eq: "run_handlers arr s r i (h # hs) = run_handlers arr ?s r (Suc i) hs"
      by (subst run_handlers_step) (rule if_P)
    obtain new where new:
      "invocations (snd (run_handlers arr ?s r (Suc i) hs)) = invocations ?s @ new"
      "length new \<le> length hs"
      "fst (run_handlers arr ?s r (Suc i) hs) = None \<longrightarrow> length new = length hs"
      "\<forall>c \<in> set new. fst (snd c) = r"
      using Cons.IH [of ?s "Suc i"] by (elim exE conjE) (rule that)
    have "invocations (snd (run_handlers arr s r i (h # hs))) =
          invocations s @ ((i, r, h (objects s r)) # new)
        \<and> length ((i, r, h (objects s r)) # new) \<le> length (h # hs)
        \<and> (fst (run_handlers arr s r i (h # hs)) = None \<longrightarrow>
              length ((i, r, h (objects s r)) # new) = length (h # hs))
        \<and> (\<forall>c \<in> set ((i, r, h (objects s r)) # new). fst (snd c) = r)"
      unfolding eq using new by simp
    then show ?thesis by (rule exI [of _ "(i, r, h (objects s r)) # new"])
  qed
qed

lemma run_handlers_all_completed:
  "\<forall>h \<in> set hs. h (objects s r) = Completed \<Longrightarrow>
     fst (run_handlers arr s r i hs) = None
     \<and> processed (metrics (snd (run_handlers arr s r i hs))) = processed (metrics s) + int (length hs)"
proof (induction hs arbitrary: s i)
  case Nil
  show ?case by simp
next
  case (Cons h hs)
  have h: "h (objects s r) = Completed" using Cons.prems by simp
  note c = run_handler_completed [where arr = arr and i = i and h = h and s = s and r = r, OF h]
  have eq: "run_handlers arr s r i (h # hs) =
      run_handlers arr (snd (run_handler arr s r i h)) r (Suc i) hs"
    using c by (simp add: run_handlers_step del: run_handlers.simps)
  have "\<forall>h' \<in> set hs. h' (objects (snd (run_handler arr s r i h)) r) = Completed"
    using Cons.prems c by simp
  then show ?case
    unfolding eq using Cons.IH [of "snd (run_handler arr s r i h)" "Suc i"] h
    by (simp add: run_handler_processed)
qed

lemma run_handlers_safe:
  "backoff_safe r s \<Longrightarrow> fst (run_handlers arr s r i hs) = None"
proof (induction hs arbitrary: s i)
  case Nil
  show ?case by simp
next
  case (Cons h hs)
  note a = run_handler_safe [where arr = arr and i = i and h = h and s = s and r = r, OF Cons.prems]
  have eq: "run_handlers arr s r i (h # hs) =
      run_handlers arr (snd (run_handler arr s r i h)) r (Suc i) hs"
    using a by (simp add: run_handlers_step del: run_handlers.simps)
  show ?case
    unfolding eq using Cons.IH a by blast
qed

lemma run_handlers_queue: "set (queue s) \<subseteq> set (queue (snd (run_handlers arr s r i hs)))"
proof (induction hs arbitrary: s i)
  case Nil
  show ?case by simp
next
  case (Cons h hs)
  show ?case
    using run_handler_queue [of s arr r i h] Cons.IH [of "snd (run_handler arr s r i h)" "Suc i"]
    by (auto simp add: run_handlers_step simp del: run_handlers.simps)
qed

lemma process_event_queue: "set (queue s) \<subseteq> set (queue (snd (process_event arr s r)))"
  using run_handlers_queue [of s arr r 0] by (simp add: process_event_def Let_def)

lemma process_event_invocations:
  "\<exists>new. invocations (snd (process_event arr s r)) = invocations s @ new
      \<and> length new \<le> length (handlers s (event_type (objects s r)))
      \<and> (fst (process_event arr s r) = None \<longrightarrow>
            length new = length (handlers s (event_type (objects s r))))
      \<and> (\<forall>c \<in> set new. fst (snd c) = r)"
  using run_handlers_invocations [of arr s r 0 "handlers s (event_type (objects s r))"]
  by (simp add: process_event_def Let_def)

lemma process_event_safe: "backoff_safe r s \<Longrightarrow> fst (process_event arr s r) = None"
  by (simp add: process_event_def Let_def run_handlers_safe)

text \<open>
  Claim C10. The counter \<open>processed\<close> counts the handler calls that complete, not the
  events: processing an event all of whose \<open>N\<close> registered handlers complete adds \<open>N\<close>
  to it (and no exception leaves the processing), a call that completes adds one, and a
  call that raises or times out adds nothing to it (and one to \<open>failed\<close>), whatever is
  submitted in the meantime.
\<close>

theorem processed_counts_successful_calls:
  "((\<forall>h \<in> set (handlers s (event_type (objects s r))). h (objects s r) = Completed) \<longrightarrow>
      fst (process_event arrivals s r) = None
      \<and> processed (metrics (snd (process_event arrivals s r))) =
        processed (metrics s) + int (length (handlers s (event_type (objects s r)))))
   \<and> (h (objects s r) = Completed \<longrightarrow>
        processed (metrics (snd (run_handler arrivals s r i h))) = processed (metrics s) + 1)
   \<and> (h (objects s r) \<noteq> Completed \<longrightarrow>
        processed (metrics (snd (run_handler arrivals s r i h))) = processed (metrics s)
        \<and> failed (metrics (snd (run_handler arrivals s r i h))) = failed (metrics s) + 1)"
  by (simp add: process_event_def Let_def run_handlers_all_completed run_handler_processed
      run_handler_failed)

lemma two_handler_dispatcher_facts:
  "handlers two_handler_dispatcher (event_type (objects two_handler_dispatcher 0)) = [completing, completing]"
  "metrics two_handler_dispatcher = \<lparr>processed = 0, failed = 0, retried = 0, dropped = 0\<rparr>"
  by (simp_all add: two_handler_dispatcher_def emit_def start_def register_handler_def
      EventLoop_init_def EventLoopConfig_default_def Let_def queue_full_def)

text \<open>An event with two handlers that complete, and one call of a handler that raises.\<close>

theorem processed_counts_successful_calls_witness:
  "handlers two_handler_dispatcher (event_type (objects two_handler_dispatcher 0)) =
      [completing, completing]
   \<and> processed (metrics (snd (process_event no_arrivals two_handler_dispatcher 0))) = 2
   \<and> completing (objects two_handler_dispatcher 0) = Completed
   \<and> processed (metrics (snd (run_handler no_arrivals two_handler_dispatcher 0 0 completing))) = 1
   \<and> always_raising (objects two_handler_dispatcher 0) \<noteq> Completed
   \<and> processed (metrics (snd (run_handler no_arrivals two_handler_dispatcher 0 0 always_raising))) = 0
   \<and> failed (metrics (snd (run_handler no_arrivals two_handler_dispatcher 0 0 always_raising))) = 1"
  using processed_counts_successful_calls [of two_handler_dispatcher 0 no_arrivals completing 0]
    processed_counts_successful_calls [of two_handler_dispatcher 0 no_arrivals always_raising 0]
  by (simp add: two_handler_dispatcher_facts completing_def always_raising_def)

subsection \<open>Submitting events\<close>

text \<open>
  Claim C7. \<^verbatim>\<open>emit\<close> returns at once, whatever the state. When the queue holds as many
  entries as its (positive) capacity, the event is rejected: the result is \<open>None\<close>, the
  queue is as before and \<open>dropped\<close> is one more. Below the capacity the event is accepted:
  the new event is returned, the queue holds it in addition to what it held, and
  \<open>dropped\<close> is as before. The capacity is 1000 by default; a capacity of zero or less is
  the unbounded queue of \<^verbatim>\<open>asyncio\<close>, which is never at capacity.
\<close>

theorem emit_never_blocks:
  assumes "emit now eid t d p s = (res, s')"
  shows "(0 < max_queue_size (config s) \<and> max_queue_size (config s) \<le> int (length (queue s)) \<longrightarrow>
            res = None \<and> queue s' = queue s
            \<and> dropped (metrics s') = dropped (metrics s) + 1)
       \<and> (\<not> (0 < max_queue_size (config s) \<and> max_queue_size (config s) \<le> int (length (queue s))) \<longrightarrow>
            res = Some (next_ref s)
            \<and> event_type (objects s' (next_ref s)) = t \<and> data (objects s' (next_ref s)) = d
            \<and> priority (objects s' (next_ref s)) = p
            \<and> mset (queue s') = add_mset (next_ref s) (mset (queue s))
            \<and> length (queue s') = Suc (length (queue s))
            \<and> dropped (metrics s') = dropped (metrics s))
       \<and> max_queue_size EventLoopConfig_default = 1000"
  using assms
  by (auto simp: emit_def Let_def queue_full_def EventLoopConfig_default_def split: if_splits)

lemma small_dispatcher_emit:
  "emit 0 ''evt_1'' USER () NORMAL small_dispatcher =
     (Some 0, small_dispatcher\<lparr>objects := (objects small_dispatcher)(0 := \<lparr>event_type = USER,
         data = (), priority = NORMAL, timestamp = 0, retry_count = 0, max_retries = 3,
         event_id = ''evt_1''\<rparr>), next_ref := 1, queue := [0]\<rparr>)"
  by (simp add: emit_def small_dispatcher_def EventLoop_init_def EventLoopConfig_default_def
      Let_def queue_full_def)

text \<open>A queue of capacity one accepts the first event and rejects the second.\<close>

theorem emit_never_blocks_witness:
  "fst (emit 0 ''evt_1'' USER () NORMAL small_dispatcher) = Some 0
   \<and> queue (snd (emit 0 ''evt_1'' USER () NORMAL small_dispatcher)) = [0]
   \<and> dropped (metrics (snd (emit 0 ''evt_1'' USER () NORMAL small_dispatcher))) = 0
   \<and> fst (emit 1 ''evt_2'' USER () NORMAL (snd (emit 0 ''evt_1'' USER () NORMAL small_dispatcher))) = None
   \<and> queue (snd (emit 1 ''evt_2'' USER () NORMAL (snd (emit 0 ''evt_1'' USER () NORMAL small_dispatcher)))) = [0]
   \<and> dropped (metrics (snd (emit 1 ''evt_2'' USER () NORMAL
         (snd (emit 0 ''evt_1'' USER () NORMAL small_dispatcher))))) = 1"
proof -
  let ?e1 = "emit 0 ''evt_1'' USER () NORMAL small_dispatcher"
  let ?e2 = "emit 1 ''evt_2'' USER () NORMAL (snd ?e1)"
  have a: "?e1 = (fst ?e1, snd ?e1)" and b: "?e2 = (fst ?e2, snd ?e2)" by simp_all
  have q: "queue (snd ?e1) = [0]" "max_queue_size (config (snd ?e1)) = 1"
    "dropped (metrics (snd ?e1)) = 0" "fst ?e1 = Some 0"
    by (simp_all add: small_dispatcher_emit)
       (simp_all add: small_dispatcher_def EventLoop_init_def EventLoopConfig_default_def)
  show ?thesis
    using emit_never_blocks [OF a] emit_never_blocks [OF b] q
    by simp
qed


subsection \<open>Priority order\<close>

lemma priority_value_inj: "priority_value p = priority_value q \<longleftrightarrow> p = q"
  by (cases p; cases q) simp_all

lemma two_emits_then_get:
  assumes "queue s = []"
    and "emit na ida ta da pa s = (Some a, s1)"
    and "emit nb idb tb db pb s1 = (Some b, s2)"
    and "pa \<noteq> pb"
  shows "queue_get s2 =
      Some (if priority_value pa < priority_value pb then a else b,
            s2\<lparr>queue := [if priority_value pa < priority_value pb then b else a]\<rparr>)"
proof -
  note e1 = emit_accepted [OF assms(2)]
  note e2 = emit_accepted [OF assms(3)]
  have ab: "b = Suc a" using e1 e2 by simp
  have q1: "queue s1 = [a]" using e1 assms(1) by simp
  have pa: "priority (objects s2 a) = pa" using e1 e2 by simp
  have pb: "priority (objects s2 b) = pb" using e1 e2 by simp
  have o2: "ref_lt (objects s2) b a = (priority_value pb < priority_value pa)"
    using pa pb by (simp add: ref_lt_def Event_lt_def)
  have "queue s2 = heappush (ref_lt (objects s2)) [a] b"
    using e2 q1 by simp
  then have q2: "queue s2 = (if priority_value pb < priority_value pa then [b, a] else [a, b])"
    using o2 by (simp add: heappush_single)
  have ne: "priority_value pa \<noteq> priority_value pb"
    using assms(4) by (simp add: priority_value_inj)
  show ?thesis
    using q2 ne by (auto simp: queue_get_def)
qed

text \<open>
  Claim C3. Two events of different priority are submitted, and accepted, one after the
  other to a started dispatcher with at least one worker whose queue was empty, before a
  worker takes anything from the queue. Then the first round of a worker processes the
  event of higher priority (the lower priority value), and no exception leaves the
  processing: the handler calls of that round are the calls of the handlers registered
  for its type, all on that event, while the event of lower priority is still waiting in
  the queue, whatever is submitted during the round. So a CRITICAL event submitted
  together with a BACKGROUND event is handled first, in whichever order they were
  submitted.
\<close>

theorem higher_priority_dispatched_first:
  assumes "running s" and "workers s \<noteq> []" and "queue s = []"
    and "emit na ida ta da pa s = (Some a, s1)"
    and "emit nb idb tb db pb s1 = (Some b, s2)"
    and "pa \<noteq> pb"
    and "hi = (if priority_value pa < priority_value pb then a else b)"
    and "lo = (if priority_value pa < priority_value pb then b else a)"
  shows "worker_loop arrivals 1 s2 = snd (process_event arrivals (s2\<lparr>queue := [lo]\<rparr>) hi)
    \<and> fst (process_event arrivals (s2\<lparr>queue := [lo]\<rparr>) hi) = None
    \<and> (\<exists>new. invocations (worker_loop arrivals 1 s2) = invocations s @ new
          \<and> length new = length (handlers s (event_type (objects s2 hi)))
          \<and> (\<forall>c \<in> set new. fst (snd c) = hi))
    \<and> lo \<in> set (queue (worker_loop arrivals 1 s2))"
proof -
  note e1 = emit_accepted [OF assms(4)]
  note e2 = emit_accepted [OF assms(5)]
  let ?s = "s2\<lparr>queue := [lo]\<rparr>"
  have run: "running s2" using e1 e2 assms(1) by simp
  have inv: "invocations s2 = invocations s" using e1 e2 by simp
  have hs: "handlers s2 = handlers s" using e1 e2 by simp
  have get: "queue_get s2 = Some (hi, ?s)"
    using two_emits_then_get [OF assms(3) assms(4) assms(5) assms(6)] assms(7) assms(8) by simp
  have "backoff_safe hi ?s"
    using e1 e2 assms(7) by (simp add: backoff_safe_def)
  then have none: "fst (process_event arrivals ?s hi) = None"
    by (rule process_event_safe)
  then have "worker_catch (process_event arrivals ?s hi) = snd (process_event arrivals ?s hi)"
    by (cases "process_event arrivals ?s hi") (simp add: worker_catch_def)
  then have one: "worker_loop arrivals 1 s2 = snd (process_event arrivals ?s hi)"
    using run get by (simp add: worker_round_def)
  have tr: "\<exists>new. invocations (worker_loop arrivals 1 s2) = invocations s @ new
          \<and> length new = length (handlers s (event_type (objects s2 hi)))
          \<and> (\<forall>c \<in> set new. fst (snd c) = hi)"
    using process_event_invocations [of arrivals ?s hi] one inv hs none by auto
  have "lo \<in> set (queue (worker_loop arrivals 1 s2))"
    using process_event_queue [of ?s arrivals hi] one by auto
  then show ?thesis using one tr none by blast
qed

lemma started_dispatcher_facts:
  "running started_dispatcher" "workers started_dispatcher \<noteq> []" "queue started_dispatcher = []"
  "invocations started_dispatcher = []" "handlers started_dispatcher USER = [completing]"
  "next_ref started_dispatcher = 0" "max_queue_size (config started_dispatcher) = 1000"
  by (simp_all add: started_dispatcher_def start_def register_handler_def
      EventLoop_init_def EventLoopConfig_default_def)

lemma background_submitted_emit:
  "emit 0 ''evt_1'' USER () BACKGROUND started_dispatcher = (Some 0, background_submitted)"
  unfolding background_submitted_def
  by (subst emit_not_full) (simp_all add: started_dispatcher_facts queue_full_def emit_not_full)

lemma background_submitted_facts:
  "queue background_submitted = [0]" "next_ref background_submitted = 1"
  "max_queue_size (config background_submitted) = 1000"
  "handlers background_submitted USER = [completing]" "invocations background_submitted = []"
  unfolding background_submitted_def
  by (simp_all add: emit_not_full started_dispatcher_facts queue_full_def)

lemma critical_submitted_emit:
  "emit 1 ''evt_2'' USER () CRITICAL background_submitted = (Some 1, critical_submitted)"
  unfolding critical_submitted_def
  by (subst emit_not_full) (simp_all add: background_submitted_facts queue_full_def emit_not_full)

lemma critical_submitted_facts:
  "event_type (objects critical_submitted (Suc 0)) = USER"
  "completing (objects critical_submitted (Suc 0)) = Completed"
  "handlers critical_submitted USER = [completing]" "invocations critical_submitted = []"
  unfolding critical_submitted_def
  by (simp_all add: emit_not_full background_submitted_facts queue_full_def completing_def)

text \<open>A BACKGROUND event is submitted first and a CRITICAL one second; the CRITICAL one is handled first.\<close>

theorem higher_priority_dispatched_first_witness:
  "running started_dispatcher \<and> workers started_dispatcher \<noteq> [] \<and> queue started_dispatcher = []
   \<and> emit 0 ''evt_1'' USER () BACKGROUND started_dispatcher = (Some 0, background_submitted)
   \<and> emit 1 ''evt_2'' USER () CRITICAL background_submitted = (Some 1, critical_submitted)
   \<and> BACKGROUND \<noteq> CRITICAL
   \<and> invocations (worker_loop no_arrivals 1 critical_submitted) = [(0, 1, Completed)]
   \<and> 0 \<in> set (queue (worker_loop no_arrivals 1 critical_submitted))"
proof -
  have ne: "BACKGROUND \<noteq> CRITICAL" by simp
  have hi: "1 = (if priority_value BACKGROUND < priority_value CRITICAL then 0 else (1::nat))"
    and lo: "0 = (if priority_value BACKGROUND < priority_value CRITICAL then (1::nat) else 0)"
    by simp_all
  note main = higher_priority_dispatched_first [where arrivals = no_arrivals,
      OF started_dispatcher_facts(1)
      started_dispatcher_facts(2) started_dispatcher_facts(3) background_submitted_emit
      critical_submitted_emit ne hi lo]
  have one: "worker_loop no_arrivals 1 critical_submitted =
      snd (process_event no_arrivals (critical_submitted\<lparr>queue := [0]\<rparr>) 1)"
    and waiting: "0 \<in> set (queue (worker_loop no_arrivals 1 critical_submitted))"
    using main by blast+
  have "invocations (snd (process_event no_arrivals (critical_submitted\<lparr>queue := [0]\<rparr>) 1)) =
      [(0, 1, Completed)]"
    by (simp add: process_event_def critical_submitted_facts run_handler_def Let_def)
  then have "invocations (worker_loop no_arrivals 1 critical_submitted) = [(0, 1, Completed)]"
    by (simp only: one)
  then show ?thesis
    using waiting ne started_dispatcher_facts(1) started_dispatcher_facts(2)
      started_dispatcher_facts(3) background_submitted_emit critical_submitted_emit
    by blast
qed

subsection \<open>Retries\<close>

lemma worker_round_retry:
  assumes "queue s = [r]"
    and "handlers s (event_type (objects s r)) = [h]"
    and "h (objects s r) \<noteq> Completed"
    and "retry_count (objects s r) < max_retries (objects s r)"
    and "backoff_delay (config s) (retry_count (objects s r) + 1) = Some d"
    and "arrivals (length (slept s)) = []"
  shows "queue (worker_round arrivals s) = [r]"
    and "objects (worker_round arrivals s) =
           (objects s)(r := (objects s r)\<lparr>retry_count := retry_count (objects s r) + 1\<rparr>)"
    and "handlers (worker_round arrivals s) = handlers s"
    and "running (worker_round arrivals s) = running s"
    and "invocations (worker_round arrivals s) = invocations s @ [(0, r, h (objects s r))]"
    and "metrics (worker_round arrivals s) = (metrics s)\<lparr>failed := failed (metrics s) + 1,
           retried := retried (metrics s) + 1\<rparr>"
    and "config (worker_round arrivals s) = config s"
    and "slept (worker_round arrivals s) = slept s @ [d]"
  using assms
  by (cases "h (objects s r)";
      simp add: worker_round_def worker_catch_def queue_get_def process_event_def run_handler_def
        handle_failure_def Let_def heappop_single heappush_empty queue_full_empty)+

lemma worker_round_exhausted:
  assumes "queue s = [r]"
    and "handlers s (event_type (objects s r)) = [h]"
    and "h (objects s r) \<noteq> Completed"
    and "\<not> retry_count (objects s r) < max_retries (objects s r)"
  shows "queue (worker_round arrivals s) = []"
    and "objects (worker_round arrivals s) = objects s"
    and "running (worker_round arrivals s) = running s"
    and "invocations (worker_round arrivals s) = invocations s @ [(0, r, h (objects s r))]"
    and "metrics (worker_round arrivals s) = (metrics s)\<lparr>failed := failed (metrics s) + 1\<rparr>"
    and "logged (worker_round arrivals s) = logged s @
           [case h (objects s r) of TimedOut \<Rightarrow> HandlerTimeout (event_type (objects s r))
              | Raised e \<Rightarrow> HandlerError (event_type (objects s r)) e,
            FailedAfterRetries (event_type (objects s r)) (max_retries (objects s r))]"
  using assms
  by (cases "h (objects s r)";
      simp add: worker_round_def worker_catch_def queue_get_def process_event_def run_handler_def
        handle_failure_def Let_def heappop_single)+

lemma worker_round_overflow:
  assumes "queue s = [r]"
    and "handlers s (event_type (objects s r)) = [h]"
    and "h (objects s r) \<noteq> Completed"
    and "retry_count (objects s r) < max_retries (objects s r)"
    and "backoff_delay (config s) (retry_count (objects s r) + 1) = None"
  shows "queue (worker_round arrivals s) = []"
    and "running (worker_round arrivals s) = running s"
    and "invocations (worker_round arrivals s) = invocations s @ [(0, r, h (objects s r))]"
    and "metrics (worker_round arrivals s) = (metrics s)\<lparr>failed := failed (metrics s) + 1,
           retried := retried (metrics s) + 1\<rparr>"
    and "logged (worker_round arrivals s) = logged s @
           [case h (objects s r) of TimedOut \<Rightarrow> HandlerTimeout (event_type (objects s r))
              | Raised e \<Rightarrow> HandlerError (event_type (objects s r)) e,
            WorkerError ''int too large to convert to float'']"
  using assms
  by (cases "h (objects s r)";
      simp add: worker_round_def worker_catch_def queue_get_def process_event_def run_handler_def
        handle_failure_def Let_def heappop_single)+

lemma worker_loop_idle: "queue s = [] \<Longrightarrow> worker_loop arrivals k s = s"
  by (induction k) (simp_all add: worker_round_def queue_get_def heappop_def)

lemma worker_loop_stopped: "\<not> running s \<Longrightarrow> worker_loop arrivals k s = s"
  by (cases k) simp_all

lemma worker_loop_add:
  "worker_loop arrivals (a + b) s = worker_loop arrivals b (worker_loop arrivals a s)"
  by (induction a arbitrary: s) (simp_all add: worker_loop_stopped)

lemma retry_until_exhausted:
  assumes "running s" and "queue s = [r]"
    and "handlers s (event_type (objects s r)) = [h]"
    and "\<forall>e. h e \<noteq> Completed"
    and "\<forall>k. arrivals k = []"
    and "0 \<le> retry_count (objects s r)"
    and "retry_count (objects s r) \<le> max_retries (objects s r)"
    and "max_retries (objects s r) \<le> 1024"
    and "n = nat (max_retries (objects s r) - retry_count (objects s r))"
  shows "queue (worker_loop arrivals (Suc n) s) = []
    \<and> length (invocations (worker_loop arrivals (Suc n) s)) = length (invocations s) + Suc n
    \<and> failed (metrics (worker_loop arrivals (Suc n) s)) = failed (metrics s) + int n + 1
    \<and> retried (metrics (worker_loop arrivals (Suc n) s)) = retried (metrics s) + int n
    \<and> processed (metrics (worker_loop arrivals (Suc n) s)) = processed (metrics s)
    \<and> dropped (metrics (worker_loop arrivals (Suc n) s)) = dropped (metrics s)
    \<and> last (logged (worker_loop arrivals (Suc n) s)) =
        FailedAfterRetries (event_type (objects s r)) (max_retries (objects s r))"
  using assms
proof (induction n arbitrary: s)
  case 0
  then have ex: "\<not> retry_count (objects s r) < max_retries (objects s r)" by simp
  have h: "h (objects s r) \<noteq> Completed" using 0 by simp
  note w = worker_round_exhausted [where arrivals = arrivals and s = s and r = r and h = h, OF "0.prems"(2) "0.prems"(3) h ex]
  show ?case
    using "0.prems"(1) w(1) w(4) w(5) w(6) by simp
next
  case (Suc n)
  then have lt: "retry_count (objects s r) < max_retries (objects s r)" by simp
  have h: "h (objects s r) \<noteq> Completed" using Suc.prems by simp
  have "1 \<le> retry_count (objects s r) + 1" "retry_count (objects s r) + 1 \<le> 1024"
    using Suc.prems(6) Suc.prems(8) lt by simp_all
  then obtain d where d: "backoff_delay (config s) (retry_count (objects s r) + 1) = Some d"
    using backoff_delay_fits by blast
  have arr: "arrivals (length (slept s)) = []" using Suc.prems(5) by simp
  note w = worker_round_retry [where arrivals = arrivals and s = s and r = r and h = h and d = d, OF Suc.prems(2) Suc.prems(3) h lt d arr]
  let ?s = "worker_round arrivals s"
  have a: "running ?s" using w(4) Suc.prems(1) by simp
  have b: "handlers ?s (event_type (objects ?s r)) = [h]"
    using w(2) w(3) Suc.prems(3) by simp
  have c0: "0 \<le> retry_count (objects ?s r)"
    using w(2) Suc.prems(6) by simp
  have c: "retry_count (objects ?s r) \<le> max_retries (objects ?s r)"
    using w(2) lt by simp
  have c1: "max_retries (objects ?s r) \<le> 1024"
    using w(2) Suc.prems(8) by simp
  have d: "n = nat (max_retries (objects ?s r) - retry_count (objects ?s r))"
    using w(2) Suc.prems(9) by simp
  note ih = Suc.IH [OF a w(1) b Suc.prems(4) Suc.prems(5) c0 c c1 d]
  have unfold: "worker_loop arrivals (Suc (Suc n)) s = worker_loop arrivals (Suc n) ?s"
    using Suc.prems(1) by simp
  show ?case
    unfolding unfold using ih w(2) w(5) w(6) by simp
qed

lemma retry_until_overflow:
  assumes "running s" and "queue s = [r]"
    and "handlers s (event_type (objects s r)) = [h]"
    and "\<forall>e. h e \<noteq> Completed"
    and "\<forall>k. arrivals k = []"
    and "0 \<le> retry_count (objects s r)"
    and "retry_count (objects s r) \<le> 1024"
    and "1025 \<le> max_retries (objects s r)"
    and "n = nat (1024 - retry_count (objects s r))"
  shows "queue (worker_loop arrivals (Suc n) s) = []
    \<and> length (invocations (worker_loop arrivals (Suc n) s)) = length (invocations s) + Suc n
    \<and> failed (metrics (worker_loop arrivals (Suc n) s)) = failed (metrics s) + int n + 1
    \<and> retried (metrics (worker_loop arrivals (Suc n) s)) = retried (metrics s) + int n + 1
    \<and> processed (metrics (worker_loop arrivals (Suc n) s)) = processed (metrics s)
    \<and> dropped (metrics (worker_loop arrivals (Suc n) s)) = dropped (metrics s)
    \<and> last (logged (worker_loop arrivals (Suc n) s)) =
        WorkerError ''int too large to convert to float''"
  using assms
proof (induction n arbitrary: s)
  case 0
  then have rc: "retry_count (objects s r) = 1024" by simp
  have lt: "retry_count (objects s r) < max_retries (objects s r)"
    using rc "0.prems"(8) by simp
  have h: "h (objects s r) \<noteq> Completed" using 0 by simp
  have ov: "backoff_delay (config s) (retry_count (objects s r) + 1) = None"
    using rc by (simp add: backoff_delay_overflow)
  note w = worker_round_overflow [where arrivals = arrivals and s = s and r = r and h = h, OF "0.prems"(2) "0.prems"(3) h lt ov]
  show ?case
    using "0.prems"(1) w(1) w(3) w(4) w(5) by simp
next
  case (Suc n)
  then have lt': "retry_count (objects s r) < 1024" by simp
  then have lt: "retry_count (objects s r) < max_retries (objects s r)"
    using Suc.prems(8) by simp
  have h: "h (objects s r) \<noteq> Completed" using Suc.prems by simp
  have "1 \<le> retry_count (objects s r) + 1" "retry_count (objects s r) + 1 \<le> 1024"
    using Suc.prems(6) lt' by simp_all
  then obtain d where d: "backoff_delay (config s) (retry_count (objects s r) + 1) = Some d"
    using backoff_delay_fits by blast
  have arr: "arrivals (length (slept s)) = []" using Suc.prems(5) by simp
  note w = worker_round_retry [where arrivals = arrivals and s = s and r = r and h = h and d = d, OF Suc.prems(2) Suc.prems(3) h lt d arr]
  let ?s = "worker_round arrivals s"
  have a: "running ?s" using w(4) Suc.prems(1) by simp
  have b: "handlers ?s (event_type (objects ?s r)) = [h]"
    using w(2) w(3) Suc.prems(3) by simp
  have c0: "0 \<le> retry_count (objects ?s r)"
    using w(2) Suc.prems(6) by simp
  have c: "retry_count (objects ?s r) \<le> 1024"
    using w(2) lt' by simp
  have c1: "1025 \<le> max_retries (objects ?s r)"
    using w(2) Suc.prems(8) by simp
  have d: "n = nat (1024 - retry_count (objects ?s r))"
    using w(2) Suc.prems(9) by simp
  note ih = Suc.IH [OF a w(1) b Suc.prems(4) Suc.prems(5) c0 c c1 d]
  have unfold: "worker_loop arrivals (Suc (Suc n)) s = worker_loop arrivals (Suc n) ?s"
    using Suc.prems(1) by simp
  show ?case
    unfolding unfold using ih w(5) w(6) by simp
qed

lemma failing_dispatcher_facts:
  "running failing_dispatcher" "queue failing_dispatcher = [0]"
  "handlers failing_dispatcher (event_type (objects failing_dispatcher 0)) = [always_raising]"
  "retry_count (objects failing_dispatcher 0) = 0"
  "max_retries (objects failing_dispatcher 0) = 3"
  "invocations failing_dispatcher = []"
  "metrics failing_dispatcher = \<lparr>processed = 0, failed = 0, retried = 0, dropped = 0\<rparr>"
  by (simp_all add: failing_dispatcher_def emit_def start_def register_handler_def
      EventLoop_init_def EventLoopConfig_default_def Let_def queue_full_def)

lemma failing_dispatcher_type:
  "event_type (objects failing_dispatcher 0) = USER"
  "handlers failing_dispatcher USER = [always_raising]"
  by (simp_all add: failing_dispatcher_def emit_def start_def register_handler_def
      EventLoop_init_def EventLoopConfig_default_def Let_def queue_full_def)

lemma failing_dispatcher_two_facts:
  "running failing_dispatcher_two" "queue failing_dispatcher_two = [0]"
  "handlers failing_dispatcher_two (event_type (objects failing_dispatcher_two 0)) = [always_raising]"
  "retry_count (objects failing_dispatcher_two 0) = 0"
  "max_retries (objects failing_dispatcher_two 0) = 2"
  "invocations failing_dispatcher_two = []"
  "metrics failing_dispatcher_two = \<lparr>processed = 0, failed = 0, retried = 0, dropped = 0\<rparr>"
  by (simp_all add: failing_dispatcher_two_def start_def register_handler_def
      EventLoop_init_def EventLoopConfig_default_def)

lemma persistent_dispatcher_facts:
  "running persistent_dispatcher" "queue persistent_dispatcher = [0]"
  "handlers persistent_dispatcher (event_type (objects persistent_dispatcher 0)) = [always_raising]"
  "retry_count (objects persistent_dispatcher 0) = 0"
  "max_retries (objects persistent_dispatcher 0) = 2000"
  "invocations persistent_dispatcher = []"
  "metrics persistent_dispatcher = \<lparr>processed = 0, failed = 0, retried = 0, dropped = 0\<rparr>"
  by (simp_all add: persistent_dispatcher_def start_def register_handler_def
      EventLoop_init_def EventLoopConfig_default_def)





text \<open>
  Without the hypothesis on the producers the retry can be lost earlier: a submission
  that fills the queue during the back-off sleep makes \<^verbatim>\<open>put_nowait\<close> fail, and the
  event is dropped after its first attempt.
\<close>

lemma crowded_dispatcher_eq:
  "crowded_dispatcher =
     \<lparr>config = EventLoopConfig_default\<lparr>max_queue_size := 1\<rparr>,
      objects = (\<lambda>r. undefined)(0 := \<lparr>event_type = USER, data = (), priority = NORMAL,
        timestamp = 0, retry_count = 0, max_retries = 3, event_id = ''evt_1''\<rparr>),
      next_ref = 1, queue = [0], handlers = (\<lambda>t. [])(USER := [always_raising]),
      workers = [0, 1, 2, 3], running = True,
      metrics = \<lparr>processed = 0, failed = 0, retried = 0, dropped = 0\<rparr>,
      logged = [], invocations = [], slept = []\<rparr>"
  by (simp add: crowded_dispatcher_def emit_def start_def register_handler_def
      EventLoop_init_def EventLoopConfig_default_def Let_def queue_full_def upt_rec)

lemma retry_dropped_when_queue_fills:
  "queue (worker_loop one_arrival 1 crowded_dispatcher) = [1]
   \<and> invocations (worker_loop one_arrival 1 crowded_dispatcher) = [(0, 0, Raised ''boom'')]
   \<and> slept (worker_loop one_arrival 1 crowded_dispatcher) = [1]
   \<and> dropped (metrics (worker_loop one_arrival 1 crowded_dispatcher)) = 1
   \<and> failed (metrics (worker_loop one_arrival 1 crowded_dispatcher)) = 1
   \<and> retried (metrics (worker_loop one_arrival 1 crowded_dispatcher)) = 1
   \<and> logged (worker_loop one_arrival 1 crowded_dispatcher) =
        [HandlerError USER ''boom'', QueueFullDroppingRetry USER]"
  by (simp add: crowded_dispatcher_eq worker_round_def worker_catch_def queue_get_def
      process_event_def run_handler_def handle_failure_def Let_def always_raising_def
      backoff_delay_def int_fits_float_def one_arrival_def emit_def queue_full_def
      EventLoopConfig_default_def)

section \<open>Properties of the state manager\<close>

subsection \<open>Transitions and callbacks\<close>

lemma notify_from_frame:
  "state (notify_from s st i cbs) = state s"
  "tasks (notify_from s st i cbs) = tasks s"
  "sleep_task (notify_from s st i cbs) = sleep_task s"
  "sm_config (notify_from s st i cbs) = sm_config s"
  "callbacks (notify_from s st i cbs) = callbacks s"
  by (induction cbs arbitrary: s i; simp split: callback_result.split)+

lemma notify_from_notified:
  "notified (notify_from s st i cbs) =
     notified s @ map (\<lambda>(j, cb). (j, st, state s, cb st (state s))) (enumerate i cbs)"
proof (induction cbs arbitrary: s i)
  case Nil
  show ?case by simp
next
  case (Cons cb cbs)
  show ?case
    by (cases "cb st (state s)") (simp_all add: Cons.IH)
qed

lemma transition_to_same: "state s = new_state \<Longrightarrow> transition_to now new_state s = s"
  by (simp add: transition_to_def)

lemma transition_to_state: "state (transition_to now new_state s) = new_state"
  by (simp add: transition_to_def notify_callbacks_def notify_from_frame Let_def
      split: option.split)

lemma transition_to_config: "sm_config (transition_to now new_state s) = sm_config s"
  by (simp add: transition_to_def notify_callbacks_def notify_from_frame Let_def
      split: option.split)

lemma transition_to_notified:
  "state s \<noteq> new_state \<Longrightarrow>
     notified (transition_to now new_state s) =
       notified s @ map (\<lambda>(j, cb). (j, new_state, new_state, cb new_state new_state))
         (enumerate 0 (callbacks s new_state))"
  by (simp add: transition_to_def notify_callbacks_def notify_from_notified Let_def
      split: option.split)

lemma transition_to_tasks:
  "tasks (transition_to now new_state s) =
     (if state s \<noteq> new_state \<and> new_state = BUSY
      then (case sleep_task s of None \<Rightarrow> tasks s | Some t \<Rightarrow> cancel_task t (tasks s))
      else tasks s)"
  by (simp add: transition_to_def notify_callbacks_def notify_from_frame Let_def
      split: option.split)

lemma transition_to_sleep_task:
  "sleep_task (transition_to now new_state s) =
     (if state s \<noteq> new_state \<and> new_state = BUSY then None else sleep_task s)"
  by (simp add: transition_to_def notify_callbacks_def notify_from_frame Let_def
      split: option.split)

text \<open>
  Claim C9. For each of the nine pairs of a current and a new state, \<^verbatim>\<open>transition_to\<close>
  ends without an error. When the new state is the current one nothing changes and no
  callback is called. Otherwise the manager ends in the new state and the callbacks
  called are exactly those registered for the new state, each once, in the order of
  registration, with the new state as argument; each of them finds the new state as the
  manager's current state, and one that raises does not keep the others from being
  called.
\<close>

theorem transition_to_notifies_destination:
  "(state s = new_state \<longrightarrow> transition_to now new_state s = s)
   \<and> (state s \<noteq> new_state \<longrightarrow>
        state (transition_to now new_state s) = new_state
        \<and> notified (transition_to now new_state s) =
            notified s @ map (\<lambda>(j, cb). (j, new_state, new_state, cb new_state new_state))
              (enumerate 0 (callbacks s new_state)))"
  by (simp add: transition_to_same transition_to_state transition_to_notified)

lemma watched_manager_facts:
  "state watched_manager = IDLE" "notified watched_manager = []"
  "callbacks watched_manager BUSY = [raising_callback, quiet_callback]"
  by (simp_all add: watched_manager_def register_callback_def StateManager_init_def)

text \<open>
  From IDLE, a transition to IDLE changes nothing, and a transition to BUSY calls the two
  callbacks registered for BUSY, the first of which raises, and not the one for IDLE.
\<close>

theorem transition_to_notifies_destination_witness:
  "state watched_manager = IDLE
   \<and> transition_to 1 IDLE watched_manager = watched_manager
   \<and> state watched_manager \<noteq> BUSY
   \<and> state (transition_to 1 BUSY watched_manager) = BUSY
   \<and> notified (transition_to 1 BUSY watched_manager) =
        [(0, BUSY, BUSY, Raises ''boom''), (1, BUSY, BUSY, Returns)]"
  using transition_to_notifies_destination [of watched_manager IDLE 1]
    transition_to_notifies_destination [of watched_manager BUSY 1]
  by (simp add: watched_manager_facts raising_callback_def quiet_callback_def)

subsection \<open>The scheduled sleep\<close>

lemma cancel_task_length [simp]: "length (cancel_task t ts) = length ts"
  by (simp add: cancel_task_def)

lemma cancel_task_nth:
  "u < length ts \<Longrightarrow>
     cancel_task t ts ! u = (if u = t \<and> ts ! t = Pending then Cancelled else ts ! u)"
  by (simp add: cancel_task_def nth_list_update)

lemma only_pending_cancel: "only_pending (Some t) ts \<Longrightarrow> only_pending None (cancel_task t ts)"
  unfolding only_pending_def
proof (intro allI impI)
  fix u
  assume a: "\<forall>u. u < length ts \<and> ts ! u = Pending \<longrightarrow> Some t = Some u"
    and b: "u < length (cancel_task t ts) \<and> cancel_task t ts ! u = Pending"
  from b have u: "u < length ts" by simp
  from b u have "ts ! u = Pending \<and> \<not> (u = t \<and> ts ! t = Pending)"
    by (simp add: cancel_task_nth split: if_splits)
  with a u show "None = Some u" by blast
qed

lemma only_pending_append:
  "only_pending None ts \<Longrightarrow> only_pending (Some (length ts)) (ts @ [Pending])"
  by (auto simp: only_pending_def nth_append)

lemma only_pending_done: "only_pending (Some t) ts \<Longrightarrow> only_pending w (ts[t := Done])"
  unfolding only_pending_def
proof (intro allI impI)
  fix u
  assume a: "\<forall>u. u < length ts \<and> ts ! u = Pending \<longrightarrow> Some t = Some u"
    and b: "u < length (ts[t := Done]) \<and> ts[t := Done] ! u = Pending"
  from b have u: "u < length ts" by simp
  from b u have "u \<noteq> t \<and> ts ! u = Pending"
    by (cases "u = t") simp_all
  with a u show "w = Some u" by blast
qed

lemma schedule_sleep_fields:
  "state (schedule_sleep s) = state s"
  "sm_config (schedule_sleep s) = sm_config s"
  "sleep_task (schedule_sleep s) = Some (length (tasks s))"
  "tasks (schedule_sleep s) =
     (case sleep_task s of None \<Rightarrow> tasks s | Some t \<Rightarrow> cancel_task t (tasks s)) @ [Pending]"
  by (simp_all add: schedule_sleep_def Let_def split: option.split)

lemma set_idle_config: "sm_config (set_idle now s) = sm_config s"
  by (simp add: set_idle_def Let_def transition_to_config schedule_sleep_fields)

lemma set_idle_schedules:
  assumes "battery_optimization (sm_config s)"
  shows "sleep_task (set_idle now s) = Some (length (tasks s))
    \<and> length (tasks s) < length (tasks (set_idle now s))
    \<and> tasks (set_idle now s) ! length (tasks s) = Pending"
proof -
  let ?s1 = "transition_to now IDLE s"
  have t: "tasks ?s1 = tasks s"
    by (simp add: transition_to_tasks)
  have c: "battery_optimization (sm_config ?s1)"
    using assms by (simp add: transition_to_config)
  have eq: "set_idle now s = schedule_sleep ?s1"
    using c by (simp add: set_idle_def Let_def)
  show ?thesis
    unfolding eq by (simp add: schedule_sleep_fields t nth_append split: option.split)
qed

lemma no_stale_timer_init: "no_stale_timer (StateManager_init now cfg)"
  by (simp add: no_stale_timer_def only_pending_def StateManager_init_def)

lemma no_stale_timer_transition_to:
  assumes "no_stale_timer s"
  shows "no_stale_timer (transition_to now new_state s)"
proof (cases "state s \<noteq> new_state \<and> new_state = BUSY")
  case True
  then have nb: "new_state = BUSY" and ne: "state s \<noteq> BUSY" by auto
  have op: "only_pending (sleep_task s) (tasks s)"
    using assms by (simp add: no_stale_timer_def)
  have "only_pending None (tasks (transition_to now BUSY s))"
  proof (cases "sleep_task s")
    case None
    then show ?thesis using op ne by (simp add: transition_to_tasks)
  next
    case (Some t)
    then show ?thesis using op ne by (simp add: transition_to_tasks only_pending_cancel)
  qed
  then show ?thesis
    using ne unfolding nb by (simp add: no_stale_timer_def transition_to_sleep_task)
next
  case False
  then have "tasks (transition_to now new_state s) = tasks s"
    and "sleep_task (transition_to now new_state s) = sleep_task s"
    and "state (transition_to now new_state s) = BUSY \<longrightarrow> state s = BUSY"
    by (auto simp: transition_to_tasks transition_to_sleep_task transition_to_state)
  then show ?thesis
    using assms by (simp add: no_stale_timer_def)
qed

lemma no_stale_timer_schedule_sleep:
  assumes "no_stale_timer s" and "state s \<noteq> BUSY"
  shows "no_stale_timer (schedule_sleep s)"
proof -
  let ?ts = "case sleep_task s of None \<Rightarrow> tasks s | Some t \<Rightarrow> cancel_task t (tasks s)"
  have op: "only_pending (sleep_task s) (tasks s)"
    using assms(1) by (simp add: no_stale_timer_def)
  have len: "length ?ts = length (tasks s)"
    by (simp split: option.split)
  have "only_pending None ?ts"
    using op by (cases "sleep_task s") (simp_all add: only_pending_cancel)
  then have "only_pending (Some (length ?ts)) (?ts @ [Pending])"
    by (rule only_pending_append)
  then have "only_pending (sleep_task (schedule_sleep s)) (tasks (schedule_sleep s))"
    unfolding len by (simp only: schedule_sleep_fields)
  then show ?thesis
    using assms(2) by (simp add: no_stale_timer_def schedule_sleep_fields len)
qed

lemma no_stale_timer_set_idle:
  assumes "no_stale_timer s"
  shows "no_stale_timer (set_idle now s)"
proof -
  have a: "no_stale_timer (transition_to now IDLE s)"
    using assms by (rule no_stale_timer_transition_to)
  have b: "state (transition_to now IDLE s) \<noteq> BUSY"
    by (simp add: transition_to_state)
  show ?thesis
    using a no_stale_timer_schedule_sleep [OF a b] by (simp add: set_idle_def Let_def)
qed

lemma no_stale_timer_sleep_after_timeout:
  assumes "no_stale_timer s"
  shows "no_stale_timer (sleep_after_timeout now t s)"
proof (cases "t < length (tasks s) \<and> tasks s ! t = Pending")
  case True
  have op: "only_pending (sleep_task s) (tasks s)"
    using assms by (simp add: no_stale_timer_def)
  then have st: "sleep_task s = Some t"
    using True unfolding only_pending_def by blast
  let ?s1 = "transition_to now SLEEPING s"
  have f: "tasks ?s1 = tasks s" "sleep_task ?s1 = sleep_task s" "state ?s1 = SLEEPING"
    by (simp_all add: transition_to_tasks transition_to_sleep_task transition_to_state)
  have eq: "sleep_after_timeout now t s = ?s1\<lparr>tasks := (tasks s)[t := Done]\<rparr>"
    using True f by (simp add: sleep_after_timeout_def set_sleeping_def Let_def)
  have "only_pending (Some t) ((tasks s)[t := Done])"
    using op st by (simp add: only_pending_done)
  then show ?thesis
    unfolding eq using f st True by (simp add: no_stale_timer_def)
next
  case False
  then show ?thesis using assms by (auto simp: sleep_after_timeout_def)
qed

lemma no_stale_timer_step:
  assumes "no_stale_timer s"
  shows "no_stale_timer (sm_step (now, act) s)"
proof (cases act)
  case (TransitionTo st)
  then show ?thesis using assms by (simp add: no_stale_timer_transition_to)
next
  case SetBusy
  then show ?thesis using assms by (simp add: set_busy_def no_stale_timer_transition_to)
next
  case SetIdle
  then show ?thesis using assms by (simp add: no_stale_timer_set_idle)
next
  case SetSleeping
  then show ?thesis using assms by (simp add: set_sleeping_def no_stale_timer_transition_to)
next
  case WakeIfSleeping
  then show ?thesis using assms by (simp add: wake_if_sleeping_def no_stale_timer_set_idle)
next
  case Activity
  have "no_stale_timer (s\<lparr>last_activity_at := now\<rparr>)"
    using assms by (simp add: no_stale_timer_def)
  then show ?thesis
    using Activity no_stale_timer_set_idle [of "s\<lparr>last_activity_at := now\<rparr>" now]
    by (simp add: activity_def wake_if_sleeping_def)
next
  case (RegisterCallback st cb)
  then show ?thesis
    using assms by (simp add: no_stale_timer_def register_callback_def)
next
  case (SleepOver t)
  then show ?thesis using assms by (simp add: no_stale_timer_sleep_after_timeout)
qed

lemma no_stale_timer_run:
  "no_stale_timer s \<Longrightarrow> no_stale_timer (sm_run acts s)"
proof (induction acts arbitrary: s)
  case Nil
  then show ?case by simp
next
  case (Cons a acts)
  obtain now act where a: "a = (now, act)" by (cases a)
  show ?case
    using Cons.IH [of "sm_step a s"] no_stale_timer_step [OF Cons.prems, of now act] a by simp
qed

lemma busy_no_pending:
  assumes "no_stale_timer s" and "state s = BUSY"
  shows "sleep_task s = None \<and> (\<forall>u. u < length (tasks s) \<longrightarrow> tasks s ! u \<noteq> Pending)"
proof -
  have n: "sleep_task s = None"
    using assms unfolding no_stale_timer_def by blast
  have op: "only_pending (sleep_task s) (tasks s)"
    using assms(1) unfolding no_stale_timer_def by blast
  have "\<forall>u. u < length (tasks s) \<longrightarrow> tasks s ! u \<noteq> Pending"
    using op unfolding n only_pending_def by blast
  then show ?thesis using n by simp
qed

lemma task_in_cancel:
  assumes "t < length ts \<and> ts ! t \<in> S" and "Pending \<in> S \<longrightarrow> Cancelled \<in> S"
  shows "t < length (cancel_task u ts) \<and> cancel_task u ts ! t \<in> S"
  using assms by (auto simp: cancel_task_nth)

lemma task_in_transition_to:
  assumes "task_in S t s" and "Pending \<in> S \<longrightarrow> Cancelled \<in> S"
  shows "task_in S t (transition_to now new_state s)"
proof (cases "sleep_task s")
  case None
  then show ?thesis using assms by (simp add: task_in_def transition_to_tasks)
next
  case (Some u)
  then show ?thesis
    using assms task_in_cancel [of t "tasks s" S u]
    by (simp add: task_in_def transition_to_tasks)
qed

lemma task_in_schedule_sleep:
  assumes "task_in S t s" and "Pending \<in> S \<longrightarrow> Cancelled \<in> S"
  shows "task_in S t (schedule_sleep s)"
proof (cases "sleep_task s")
  case None
  then show ?thesis using assms by (simp add: task_in_def schedule_sleep_fields nth_append)
next
  case (Some u)
  then show ?thesis
    using assms task_in_cancel [of t "tasks s" S u]
    by (simp add: task_in_def schedule_sleep_fields nth_append)
qed

lemma task_in_set_idle:
  assumes "task_in S t s" and "Pending \<in> S \<longrightarrow> Cancelled \<in> S"
  shows "task_in S t (set_idle now s)"
  using assms by (simp add: set_idle_def Let_def task_in_schedule_sleep task_in_transition_to)

lemma task_in_sleep_after_timeout:
  assumes "task_in S t s" and "Pending \<in> S \<longrightarrow> Cancelled \<in> S"
    and "Pending \<in> S \<longrightarrow> u \<noteq> t"
  shows "task_in S t (sleep_after_timeout now u s)"
proof (cases "u < length (tasks s) \<and> tasks s ! u = Pending")
  case True
  then have ne: "u \<noteq> t" using assms(1) assms(3) by (auto simp: task_in_def)
  have "task_in S t (transition_to now SLEEPING s)"
    using assms(1) assms(2) by (rule task_in_transition_to)
  then show ?thesis
    using True ne
    by (simp add: sleep_after_timeout_def set_sleeping_def Let_def task_in_def)
next
  case False
  then show ?thesis using assms(1) by (auto simp: sleep_after_timeout_def)
qed

lemma task_in_step:
  assumes "task_in S t s" and c: "Pending \<in> S \<longrightarrow> Cancelled \<in> S"
    and "Pending \<in> S \<longrightarrow> act \<noteq> SleepOver t"
  shows "task_in S t (sm_step (now, act) s)"
proof (cases act)
  case (TransitionTo st)
  then show ?thesis using assms by (simp add: task_in_transition_to)
next
  case SetBusy
  then show ?thesis using assms by (simp add: set_busy_def task_in_transition_to)
next
  case SetIdle
  then show ?thesis using assms by (simp add: task_in_set_idle)
next
  case SetSleeping
  then show ?thesis using assms by (simp add: set_sleeping_def task_in_transition_to)
next
  case WakeIfSleeping
  then show ?thesis using assms by (simp add: wake_if_sleeping_def task_in_set_idle)
next
  case Activity
  have "task_in S t (s\<lparr>last_activity_at := now\<rparr>)"
    using assms(1) by (simp add: task_in_def)
  then show ?thesis
    using Activity task_in_set_idle [of S t "s\<lparr>last_activity_at := now\<rparr>" now] c
    by (simp add: activity_def wake_if_sleeping_def)
next
  case (RegisterCallback st cb)
  then show ?thesis
    using assms(1) by (simp add: task_in_def register_callback_def)
next
  case (SleepOver u)
  then show ?thesis using assms by (simp add: task_in_sleep_after_timeout)
qed

lemma task_in_run:
  assumes "task_in S t s" and "Pending \<in> S \<longrightarrow> Cancelled \<in> S"
    and "Pending \<in> S \<longrightarrow> (\<forall>now. (now, SleepOver t) \<notin> set acts)"
  shows "task_in S t (sm_run acts s)"
  using assms
proof (induction acts arbitrary: s)
  case Nil
  then show ?case by simp
next
  case (Cons a acts)
  obtain now act where a: "a = (now, act)" by (cases a)
  have "Pending \<in> S \<longrightarrow> act \<noteq> SleepOver t"
    using Cons.prems(3) a by auto
  then have "task_in S t (sm_step a s)"
    using task_in_step [OF Cons.prems(1) Cons.prems(2), of act now] a by simp
  moreover have "Pending \<in> S \<longrightarrow> (\<forall>now. (now, SleepOver t) \<notin> set acts)"
    using Cons.prems(3) by auto
  ultimately show ?case
    using Cons.IH [of "sm_step a s"] Cons.prems(2) by simp
qed

lemma cancelled_timer_does_nothing:
  "task_in {Cancelled} t s \<Longrightarrow> sleep_after_timeout now t s = s"
  by (simp add: task_in_def sleep_after_timeout_def)

lemma sm_config_step: "sm_config (sm_step (now, act) s) = sm_config s"
proof (cases act)
  case (SleepOver t)
  then show ?thesis
    by (simp add: sleep_after_timeout_def set_sleeping_def Let_def transition_to_config)
next
  case Activity
  then show ?thesis
    by (simp add: activity_def wake_if_sleeping_def set_idle_config)
qed (simp_all add: set_busy_def set_sleeping_def wake_if_sleeping_def register_callback_def
      transition_to_config set_idle_config)

lemma sm_config_run: "sm_config (sm_run acts s) = sm_config s"
proof (induction acts arbitrary: s)
  case Nil
  then show ?case by simp
next
  case (Cons a acts)
  obtain now act where a: "a = (now, act)" by (cases a)
  show ?case
    using Cons.IH [of "sm_step a s"] sm_config_step [of now act s] a by simp
qed

text \<open>
  Claim C4. In any execution of a state manager with battery optimization, take a call of
  \<^verbatim>\<open>set_idle\<close>: it schedules a sleep task, which is pending. If the manager is then set
  busy, whatever happens in between other than the end of that task's sleep, the task is
  cancelled and no task at all is left pending; the task stays cancelled through
  everything that follows, and the end of its sleep changes nothing, so no transition to
  SLEEPING comes from it. In every state an execution reaches, BUSY goes with no
  scheduled sleep task and no pending task.
\<close>

theorem busy_cancels_scheduled_sleep:
  assumes "s = sm_run before (StateManager_init t0 cfg)"
    and "battery_optimization cfg"
    and "idle = set_idle t1 s"
    and "\<forall>now. (now, SleepOver (length (tasks s))) \<notin> set between"
    and "busy = set_busy t2 (sm_run between idle)"
  shows "sleep_task idle = Some (length (tasks s))
    \<and> tasks idle ! length (tasks s) = Pending
    \<and> state busy = BUSY \<and> sleep_task busy = None
    \<and> (\<forall>u. u < length (tasks busy) \<longrightarrow> tasks busy ! u \<noteq> Pending)
    \<and> tasks busy ! length (tasks s) = Cancelled
    \<and> (\<forall>later. tasks (sm_run later busy) ! length (tasks s) = Cancelled
          \<and> (\<forall>now. sleep_after_timeout now (length (tasks s)) (sm_run later busy) =
                sm_run later busy))
    \<and> (state s = BUSY \<longrightarrow>
          sleep_task s = None \<and> (\<forall>u. u < length (tasks s) \<longrightarrow> tasks s ! u \<noteq> Pending))"
proof -
  let ?t = "length (tasks s)"
  have inv_s: "no_stale_timer s"
    unfolding assms(1) by (rule no_stale_timer_run) (rule no_stale_timer_init)
  have cfg: "battery_optimization (sm_config s)"
    unfolding assms(1) using assms(2) by (simp add: sm_config_run StateManager_init_def)
  note sched = set_idle_schedules [OF cfg, of t1]
  have inv_busy: "no_stale_timer busy"
    unfolding assms(5) assms(3) set_busy_def
    by (intro no_stale_timer_transition_to no_stale_timer_run no_stale_timer_set_idle inv_s)
  have st: "state busy = BUSY"
    unfolding assms(5) set_busy_def by (rule transition_to_state)
  note none = busy_no_pending [OF inv_busy st]
  have "task_in {Pending, Cancelled} ?t idle"
    unfolding assms(3) using sched by (simp add: task_in_def)
  then have "task_in {Pending, Cancelled} ?t (sm_run between idle)"
    using assms(4) by (intro task_in_run) simp_all
  then have pc: "task_in {Pending, Cancelled} ?t busy"
    unfolding assms(5) set_busy_def by (intro task_in_transition_to) simp_all
  then have c: "task_in {Cancelled} ?t busy"
    using none by (auto simp: task_in_def)
  have later: "task_in {Cancelled} ?t (sm_run later busy)" for later
    using c by (intro task_in_run) simp_all
  have l: "tasks (sm_run later busy) ! ?t = Cancelled
      \<and> (\<forall>now. sleep_after_timeout now ?t (sm_run later busy) = sm_run later busy)" for later
    using later [of later] cancelled_timer_does_nothing [of ?t "sm_run later busy"]
    by (simp add: task_in_def)
  have g: "state s = BUSY \<longrightarrow>
      sleep_task s = None \<and> (\<forall>u. u < length (tasks s) \<longrightarrow> tasks s ! u \<noteq> Pending)"
    using busy_no_pending [OF inv_s] by blast
  have "tasks busy ! ?t = Cancelled"
    using c by (simp add: task_in_def)
  then show ?thesis
    using sched st none l g unfolding assms(3) by blast
qed

lemma fresh_manager_facts:
  "fresh_manager = sm_run [] (StateManager_init 0 StateConfig_default)"
  "battery_optimization StateConfig_default" "length (tasks fresh_manager) = 0"
  by (simp_all add: fresh_manager_def StateManager_init_def StateConfig_default_def)

text \<open>
  A fresh manager is set idle and then busy: the task scheduled is cancelled, and the
  manager is still BUSY when the idle timeout of 300 seconds is over.
\<close>

theorem busy_cancels_scheduled_sleep_witness:
  "fresh_manager = sm_run [] (StateManager_init 0 StateConfig_default)
   \<and> battery_optimization StateConfig_default
   \<and> sleep_task (set_idle 1 fresh_manager) = Some 0
   \<and> tasks (set_idle 1 fresh_manager) ! 0 = Pending
   \<and> tasks (set_busy 2 (set_idle 1 fresh_manager)) ! 0 = Cancelled
   \<and> sleep_task (set_busy 2 (set_idle 1 fresh_manager)) = None
   \<and> sleep_after_timeout 301 0 (set_busy 2 (set_idle 1 fresh_manager)) =
       set_busy 2 (set_idle 1 fresh_manager)
   \<and> state (sleep_after_timeout 301 0 (set_busy 2 (set_idle 1 fresh_manager))) = BUSY"
proof -
  have a: "set_idle 1 fresh_manager = set_idle 1 fresh_manager" by simp
  have b: "\<forall>now. (now, SleepOver (length (tasks fresh_manager))) \<notin> set []" by simp
  have c: "set_busy 2 (set_idle 1 fresh_manager) = set_busy 2 (sm_run [] (set_idle 1 fresh_manager))"
    by simp
  note main = busy_cancels_scheduled_sleep [OF fresh_manager_facts(1) fresh_manager_facts(2) a b c]
  have later: "tasks (sm_run [] (set_busy 2 (set_idle 1 fresh_manager))) ! length (tasks fresh_manager) = Cancelled
      \<and> (\<forall>now. sleep_after_timeout now (length (tasks fresh_manager))
            (sm_run [] (set_busy 2 (set_idle 1 fresh_manager))) =
          sm_run [] (set_busy 2 (set_idle 1 fresh_manager)))"
    using main by blast
  show ?thesis
    using main later fresh_manager_facts by simp
qed

section \<open>Properties of the memory manager\<close>

subsection \<open>Unknown names\<close>

lemma null_registry_components:
  "components null_registry = [(''null'', ComponentRef_init ''null'' null_factory None)]"
  by (simp add: null_registry_def register_component_def empty_registry_def
      MemoryManager_init_def Let_def)

text \<open>
  \<^verbatim>\<open>get_component\<close> does not report an unknown name as an error to its caller: it
  returns \<^verbatim>\<open>None\<close>, as an ordinary result, and the caller gets the same result for a
  registered component whose factory returns \<^verbatim>\<open>None\<close>.
\<close>

theorem get_unregistered_counterexample:
  "fst (get_component 0 ''ghost'' empty_registry) = Inr None
   \<and> map_of (components null_registry) ''null'' \<noteq> None
   \<and> fst (get_component 0 ''null'' null_registry) = Inr None"
  by (simp add: get_component_def null_registry_components empty_registry_def
      MemoryManager_init_def load_def ComponentRef_init_def null_factory_def)

text \<open>
  Claim C2, amended. For a name that is not in the registry, \<^verbatim>\<open>get_component\<close> raises
  nothing: it logs that the component is not registered and returns \<^verbatim>\<open>None\<close> to its
  caller, and the registry is as before.
\<close>

theorem get_unregistered_returns_none:
  assumes "map_of (components mm) n = None"
  shows "get_component now n mm = (Inr None, mm\<lparr>mm_logged := mm_logged mm @ [NotRegistered n]\<rparr>)
    \<and> components (snd (get_component now n mm)) = components mm"
  using assms by (simp add: get_component_def)

text \<open>A name that an empty registry does not know.\<close>

theorem get_unregistered_returns_none_witness:
  "map_of (components empty_registry) ''ghost'' = None
   \<and> get_component 0 ''ghost'' empty_registry =
        (Inr None, empty_registry\<lparr>mm_logged := [NotRegistered ''ghost'']\<rparr>)"
  using get_unregistered_returns_none [of empty_registry "''ghost''" 0]
  by (simp add: empty_registry_def MemoryManager_init_def)

subsection \<open>Loading once\<close>

lemma map_of_update_same: "map_of (AList.update k v al) k = Some v"
  by (simp add: update_conv')

lemma get_component_loaded:
  assumes "map_of (components mm) n = Some c" and "held_instance c = Some v"
  shows "get_component now n mm =
      (Inr (Some v),
       mm\<lparr>components := AList.update n
          (c\<lparr>last_accessed := Some now, access_count := access_count c + 1\<rparr>) (components mm)\<rparr>)"
  using assms by (simp add: get_component_def load_def)

lemma get_component_first:
  assumes "map_of (components mm) n = Some c" and "held_instance c = None"
    and "factory c (factory_calls c) = Produced (Some v)"
  shows "get_component now n mm =
      (Inr (Some v),
       mm\<lparr>components := AList.update n
          (c\<lparr>held_instance := Some v, loaded_at := Some now,
             factory_calls := Suc (factory_calls c),
             last_accessed := Some now, access_count := access_count c + 1\<rparr>) (components mm)\<rparr>)"
  using assms by (simp add: get_component_def load_def)

lemma get_repeatedly_loaded:
  assumes "map_of (components mm) n = Some c" and "held_instance c = Some v"
  shows "fst (get_repeatedly nows n mm) = replicate (length nows) (Inr (Some v))
    \<and> (\<exists>c'. map_of (components (snd (get_repeatedly nows n mm))) n = Some c'
          \<and> held_instance c' = Some v \<and> factory_calls c' = factory_calls c
          \<and> access_count c' = access_count c + int (length nows))"
  using assms
proof (induction nows arbitrary: mm c)
  case Nil
  then show ?case by simp
next
  case (Cons now nows)
  let ?c = "c\<lparr>last_accessed := Some now, access_count := access_count c + 1\<rparr>"
  let ?mm = "mm\<lparr>components := AList.update n ?c (components mm)\<rparr>"
  have g: "get_component now n mm = (Inr (Some v), ?mm)"
    using Cons.prems by (rule get_component_loaded)
  have a: "map_of (components ?mm) n = Some ?c"
    by (simp add: map_of_update_same)
  have b: "held_instance ?c = Some v"
    using Cons.prems(2) by simp
  obtain c' where r: "fst (get_repeatedly nows n ?mm) = replicate (length nows) (Inr (Some v))"
    and c': "map_of (components (snd (get_repeatedly nows n ?mm))) n = Some c'"
      "held_instance c' = Some v" "factory_calls c' = factory_calls ?c"
      "access_count c' = access_count ?c + int (length nows)"
    using Cons.IH [OF a b] by blast
  have "access_count c' = access_count c + int (length (now # nows))"
    using c'(4) by simp
  moreover have "factory_calls c' = factory_calls c"
    using c'(3) by simp
  moreover have "snd (get_repeatedly (now # nows) n mm) = snd (get_repeatedly nows n ?mm)"
    and "fst (get_repeatedly (now # nows) n mm) = Inr (Some v) # fst (get_repeatedly nows n ?mm)"
    using g by (simp_all add: split_beta)
  ultimately show ?case
    using r c'(1) c'(2) by simp
qed

text \<open>
  The factory is not called once for every registered component: a factory that returns
  \<^verbatim>\<open>None\<close> leaves the component unloaded, so each call of \<^verbatim>\<open>get_component\<close>
  calls it again.
\<close>

theorem factory_runs_once_counterexample:
  "map_option factory_calls
      (map_of (components (snd (get_repeatedly [1, 2] ''null'' null_registry))) ''null'') = Some 2
   \<and> fst (get_repeatedly [1, 2] ''null'' null_registry) = [Inr None, Inr None]"
  by (simp add: null_registry_components get_component_def load_def ComponentRef_init_def
      null_factory_def)

text \<open>
  Claim C5, amended. A registered component is not loaded and the next call of its
  factory returns an instance, that is a value other than \<^verbatim>\<open>None\<close>. Then any number
  of calls of \<^verbatim>\<open>get_component\<close>, at least one and with no unload in between, call the
  factory exactly once, all return that instance, and the access count grows by the
  number of calls.
\<close>

theorem factory_runs_once:
  assumes "map_of (components mm) n = Some c" and "held_instance c = None"
    and "factory c (factory_calls c) = Produced (Some v)"
    and "nows \<noteq> []"
  shows "fst (get_repeatedly nows n mm) = replicate (length nows) (Inr (Some v))
    \<and> (\<exists>c'. map_of (components (snd (get_repeatedly nows n mm))) n = Some c'
          \<and> held_instance c' = Some v \<and> factory_calls c' = Suc (factory_calls c)
          \<and> access_count c' = access_count c + int (length nows))"
proof -
  obtain now rest where nows: "nows = now # rest"
    using assms(4) by (cases nows) auto
  let ?c = "c\<lparr>held_instance := Some v, loaded_at := Some now,
             factory_calls := Suc (factory_calls c),
             last_accessed := Some now, access_count := access_count c + 1\<rparr>"
  let ?mm = "mm\<lparr>components := AList.update n ?c (components mm)\<rparr>"
  have g: "get_component now n mm = (Inr (Some v), ?mm)"
    using assms(1) assms(2) assms(3) by (rule get_component_first)
  have a: "map_of (components ?mm) n = Some ?c"
    by (simp add: map_of_update_same)
  have b: "held_instance ?c = Some v" by simp
  obtain c' where r: "fst (get_repeatedly rest n ?mm) = replicate (length rest) (Inr (Some v))"
    and c': "map_of (components (snd (get_repeatedly rest n ?mm))) n = Some c'"
      "held_instance c' = Some v" "factory_calls c' = factory_calls ?c"
      "access_count c' = access_count ?c + int (length rest)"
    using get_repeatedly_loaded [OF a b, of rest] by blast
  have "access_count c' = access_count c + int (length (now # rest))"
    using c'(4) by simp
  moreover have "factory_calls c' = Suc (factory_calls c)"
    using c'(3) by simp
  moreover have "snd (get_repeatedly (now # rest) n mm) = snd (get_repeatedly rest n ?mm)"
    and "fst (get_repeatedly (now # rest) n mm) = Inr (Some v) # fst (get_repeatedly rest n ?mm)"
    using g by (simp_all add: split_beta)
  ultimately show ?thesis
    unfolding nows using r c'(1) c'(2) by simp
qed

lemma token_registry_components:
  "components token_registry =
     [(''brain'', ComponentRef_init ''brain'' token_factory (Some raising_unload))]"
  by (simp add: token_registry_def register_component_def empty_registry_def
      MemoryManager_init_def Let_def)

text \<open>Five calls on a newly registered component: one factory call, an access count of 5.\<close>

theorem factory_runs_once_witness:
  "map_of (components token_registry) ''brain'' =
      Some (ComponentRef_init ''brain'' token_factory (Some raising_unload))
   \<and> held_instance (ComponentRef_init ''brain'' token_factory (Some raising_unload)) = None
   \<and> token_factory 0 = Produced (Some 100)
   \<and> fst (get_repeatedly [1, 2, 3, 4, 5] ''brain'' token_registry) =
       [Inr (Some 100), Inr (Some 100), Inr (Some 100), Inr (Some 100), Inr (Some 100)]
   \<and> (\<exists>c'. map_of (components (snd (get_repeatedly [1, 2, 3, 4, 5] ''brain'' token_registry)))
              ''brain'' = Some c'
          \<and> held_instance c' = Some 100 \<and> factory_calls c' = 1 \<and> access_count c' = 5)"
proof -
  let ?c = "ComponentRef_init ''brain'' token_factory (Some raising_unload)"
  have a: "map_of (components token_registry) ''brain'' = Some ?c"
    by (simp add: token_registry_components)
  have b: "held_instance ?c = None"
    by (simp add: ComponentRef_init_def)
  have c: "factory ?c (factory_calls ?c) = Produced (Some 100)"
    by (simp add: ComponentRef_init_def token_factory_def)
  have d: "[1, 2, 3, 4, 5] \<noteq> ([] :: rat list)" by simp
  have e: "token_factory 0 = Produced (Some 100)"
    by (simp add: token_factory_def)
  have f: "replicate (length [1, 2, 3, 4, 5 :: rat]) (Inr (Some (100::nat)) :: string + nat option) =
      [Inr (Some 100), Inr (Some 100), Inr (Some 100), Inr (Some 100), Inr (Some 100)]"
    by (simp add: numeral_eq_Suc)
  have g: "factory_calls ?c = 0" "access_count ?c = 0"
    by (simp_all add: ComponentRef_init_def)
  show ?thesis
    using factory_runs_once [OF a b c d] a b e unfolding f g by simp
qed

subsection \<open>Unloading\<close>

lemma unload_not_loaded: "snd (snd (unload c)) = None \<Longrightarrow> \<not> is_loaded (fst (unload c))"
  by (simp add: is_loaded_def unload_def split: option.splits unload_result.splits if_splits)

lemma stuck_brain_eq:
  "stuck_brain = \<lparr>name = ''brain'', factory = token_factory, unload_callback = Some exiting_unload,
      held_instance = Some 100, last_accessed = Some 1, access_count = 1, loaded_at = Some 1,
      factory_calls = 1, unload_calls = []\<rparr>"
  by (simp add: stuck_brain_def load_def ComponentRef_init_def token_factory_def)

text \<open>
  \<^verbatim>\<open>unload\<close> does not clear the instance whatever the unload callback raises. A
  callback that raises \<^verbatim>\<open>SystemExit\<close>, which is not an \<^verbatim>\<open>Exception\<close>, is not
  caught: nothing is logged, the exception leaves \<^verbatim>\<open>unload\<close>, and the component
  still holds its instance and is still loaded.
\<close>

theorem unload_keeps_instance_counterexample:
  "is_loaded stuck_brain
   \<and> unload_callback stuck_brain = Some exiting_unload
   \<and> call exiting_unload 100 = UnloadEscaped ''SystemExit''
   \<and> held_instance (fst (unload stuck_brain)) = Some 100
   \<and> is_loaded (fst (unload stuck_brain))
   \<and> fst (snd (unload stuck_brain)) = []
   \<and> snd (snd (unload stuck_brain)) = Some ''SystemExit''"
  by (simp add: stuck_brain_eq is_loaded_def unload_def exiting_unload_def)

text \<open>
  Claim C6, amended. A component is loaded exactly when it holds an instance. When
  \<^verbatim>\<open>unload\<close> returns, the component holds none and is not loaded. On a loaded
  component with an unload callback (one whose truth value is true), the callback is
  called once, on the instance held. When the callback returns, or raises an
  \<^verbatim>\<open>Exception\<close>, \<^verbatim>\<open>unload\<close> returns and the instance is cleared; the
  \<^verbatim>\<open>Exception\<close> is logged and goes no further. When the callback raises an exception
  that is not an \<^verbatim>\<open>Exception\<close>, that exception leaves \<^verbatim>\<open>unload\<close>, nothing is
  logged and the component keeps its instance. Without a callback, or with one whose
  truth value is false, nothing is called and the instance is cleared.
  \<^verbatim>\<open>unload_component\<close> on a registered name leaves in the registry what \<^verbatim>\<open>unload\<close>
  leaves of the component, and returns \<^verbatim>\<open>True\<close> unless the exception passes through it.
\<close>

theorem unload_clears_instance:
  "(is_loaded c \<longleftrightarrow> held_instance c \<noteq> None)
   \<and> (snd (snd (unload c)) = None \<longrightarrow>
         held_instance (fst (unload c)) = None \<and> \<not> is_loaded (fst (unload c)))
   \<and> (\<forall>i cb. held_instance c = Some i \<and> unload_callback c = Some cb \<and> truthy cb \<longrightarrow>
         unload_calls (fst (unload c)) = unload_calls c @ [i]
         \<and> (call cb i = Cleaned \<longrightarrow>
               held_instance (fst (unload c)) = None \<and> snd (unload c) = ([], None))
         \<and> (\<forall>e. call cb i = UnloadRaised e \<longrightarrow>
               held_instance (fst (unload c)) = None
               \<and> snd (unload c) = ([ErrorUnloading (name c) e], None))
         \<and> (\<forall>e. call cb i = UnloadEscaped e \<longrightarrow>
               held_instance (fst (unload c)) = Some i \<and> snd (unload c) = ([], Some e)))
   \<and> (\<forall>i. held_instance c = Some i
            \<and> (unload_callback c = None \<or> (\<exists>cb. unload_callback c = Some cb \<and> \<not> truthy cb)) \<longrightarrow>
         unload c = (c\<lparr>held_instance := None\<rparr>, [], None))
   \<and> (\<forall>n mm. map_of (components mm) n = Some c \<longrightarrow>
         fst (unload_component n mm) =
           (case snd (snd (unload c)) of None \<Rightarrow> Inr True | Some e \<Rightarrow> Inl e)
         \<and> map_of (components (snd (unload_component n mm))) n = Some (fst (unload c)))"
proof -
  have a: "snd (snd (unload c)) = None \<longrightarrow>
         held_instance (fst (unload c)) = None \<and> \<not> is_loaded (fst (unload c))"
    by (simp add: is_loaded_def unload_def split: option.splits unload_result.splits)
  have b: "\<forall>i cb. held_instance c = Some i \<and> unload_callback c = Some cb \<and> truthy cb \<longrightarrow>
         unload_calls (fst (unload c)) = unload_calls c @ [i]
         \<and> (call cb i = Cleaned \<longrightarrow>
               held_instance (fst (unload c)) = None \<and> snd (unload c) = ([], None))
         \<and> (\<forall>e. call cb i = UnloadRaised e \<longrightarrow>
               held_instance (fst (unload c)) = None
               \<and> snd (unload c) = ([ErrorUnloading (name c) e], None))
         \<and> (\<forall>e. call cb i = UnloadEscaped e \<longrightarrow>
               held_instance (fst (unload c)) = Some i \<and> snd (unload c) = ([], Some e))"
    by (simp add: unload_def split: unload_result.split)
  have c: "\<forall>i. held_instance c = Some i
            \<and> (unload_callback c = None \<or> (\<exists>cb. unload_callback c = Some cb \<and> \<not> truthy cb)) \<longrightarrow>
         unload c = (c\<lparr>held_instance := None\<rparr>, [], None)"
    by (auto simp: unload_def)
  have d: "\<forall>n mm. map_of (components mm) n = Some c \<longrightarrow>
         fst (unload_component n mm) =
           (case snd (snd (unload c)) of None \<Rightarrow> Inr True | Some e \<Rightarrow> Inl e)
         \<and> map_of (components (snd (unload_component n mm))) n = Some (fst (unload c))"
    by (simp add: unload_component_def split_beta map_of_update_same)
  show ?thesis
    using a b c d by (simp add: is_loaded_def)
qed

lemma loaded_brain_eq:
  "loaded_brain = \<lparr>name = ''brain'', factory = token_factory, unload_callback = Some raising_unload,
      held_instance = Some 100, last_accessed = Some 1, access_count = 1, loaded_at = Some 1,
      factory_calls = 1, unload_calls = []\<rparr>"
  by (simp add: loaded_brain_def load_def ComponentRef_init_def token_factory_def)

lemma loaded_registry_components: "components loaded_registry = [(''brain'', loaded_brain)]"
  by (simp add: loaded_registry_def get_component_def token_registry_components split_beta
      loaded_brain_def)

text \<open>
  A loaded component whose unload callback raises an \<^verbatim>\<open>Exception\<close>, and one whose
  unload callback raises \<^verbatim>\<open>SystemExit\<close>.
\<close>

theorem unload_clears_instance_witness:
  "is_loaded loaded_brain
   \<and> held_instance loaded_brain = Some 100
   \<and> unload_callback loaded_brain = Some raising_unload
   \<and> truthy raising_unload
   \<and> call raising_unload 100 = UnloadRaised ''busy''
   \<and> held_instance (fst (unload loaded_brain)) = None
   \<and> unload_calls (fst (unload loaded_brain)) = [100]
   \<and> snd (unload loaded_brain) = ([ErrorUnloading ''brain'' ''busy''], None)
   \<and> map_of (components loaded_registry) ''brain'' = Some loaded_brain
   \<and> fst (unload_component ''brain'' loaded_registry) = Inr True
   \<and> map_of (components (snd (unload_component ''brain'' loaded_registry))) ''brain'' =
        Some (fst (unload loaded_brain))
   \<and> held_instance stuck_brain = Some 100
   \<and> unload_callback stuck_brain = Some exiting_unload
   \<and> truthy exiting_unload
   \<and> call exiting_unload 100 = UnloadEscaped ''SystemExit''
   \<and> unload_calls (fst (unload stuck_brain)) = [100]
   \<and> held_instance (fst (unload stuck_brain)) = Some 100
   \<and> snd (unload stuck_brain) = ([], Some ''SystemExit'')"
proof -
  have a: "held_instance loaded_brain = Some 100" "unload_callback loaded_brain = Some raising_unload"
    "unload_calls loaded_brain = []" "name loaded_brain = ''brain''"
    by (simp_all add: loaded_brain_eq)
  have b: "call raising_unload 100 = UnloadRaised ''busy''" "truthy raising_unload"
    by (simp_all add: raising_unload_def)
  have c: "map_of (components loaded_registry) ''brain'' = Some loaded_brain"
    by (simp add: loaded_registry_components)
  have d: "held_instance stuck_brain = Some 100" "unload_callback stuck_brain = Some exiting_unload"
    "unload_calls stuck_brain = []"
    by (simp_all add: stuck_brain_eq)
  have e: "call exiting_unload 100 = UnloadEscaped ''SystemExit''" "truthy exiting_unload"
    by (simp_all add: exiting_unload_def)
  show ?thesis
    using unload_clears_instance [of loaded_brain] unload_clears_instance [of stuck_brain]
      a b c d e
    by simp
qed

subsection \<open>The idle sweep\<close>

lemma unload_idle_items_eq:
  assumes "\<forall>n c. (n, c) \<in> set items \<and> idle_too_long now thr c \<longrightarrow> snd (snd (unload c)) = None"
  shows "unload_idle_items now thr items =
     (map (\<lambda>(n, c). (n, if idle_too_long now thr c then fst (unload c) else c)) items,
      map fst (filter (\<lambda>(n, c). idle_too_long now thr c) items),
      concat (map (\<lambda>(n, c). if idle_too_long now thr c then fst (snd (unload c)) else []) items),
      None)"
  using assms
proof (induction items)
  case Nil
  show ?case by simp
next
  case (Cons item items)
  obtain n c where item: "item = (n, c)" by (cases item)
  have ih: "unload_idle_items now thr items =
     (map (\<lambda>(n, c). (n, if idle_too_long now thr c then fst (unload c) else c)) items,
      map fst (filter (\<lambda>(n, c). idle_too_long now thr c) items),
      concat (map (\<lambda>(n, c). if idle_too_long now thr c then fst (snd (unload c)) else []) items),
      None)"
  proof (rule Cons.IH)
    show "\<forall>n c. (n, c) \<in> set items \<and> idle_too_long now thr c \<longrightarrow> snd (snd (unload c)) = None"
      using Cons.prems by auto
  qed
  show ?case
  proof (cases "idle_too_long now thr c")
    case True
    then have "snd (snd (unload c)) = None"
      using Cons.prems item by auto
    then have u: "unload c = (fst (unload c), fst (snd (unload c)), None)"
      by (metis prod.collapse)
    show ?thesis
      unfolding item using True ih by (subst unload_idle_items.simps, subst u) simp
  next
    case False
    then show ?thesis
      unfolding item using ih by simp
  qed
qed

lemma unload_idle_items_escape:
  assumes "\<forall>m d. (m, d) \<in> set pre \<and> idle_too_long now thr d \<longrightarrow> snd (snd (unload d)) = None"
    and "idle_too_long now thr c" and "snd (snd (unload c)) = Some e"
  shows "unload_idle_items now thr (pre @ (n, c) # post) =
     (map (\<lambda>(n, c). (n, if idle_too_long now thr c then fst (unload c) else c)) pre
        @ (n, fst (unload c)) # post,
      map fst (filter (\<lambda>(n, c). idle_too_long now thr c) pre),
      concat (map (\<lambda>(n, c). if idle_too_long now thr c then fst (snd (unload c)) else []) pre)
        @ fst (snd (unload c)),
      Some e)"
  using assms(1)
proof (induction pre)
  case Nil
  have u: "unload c = (fst (unload c), fst (snd (unload c)), Some e)"
    using assms(3) by (metis prod.collapse)
  show ?case
    using assms(2) by (simp, subst u, simp)
next
  case (Cons item pre)
  obtain m d where item: "item = (m, d)" by (cases item)
  have ih: "unload_idle_items now thr (pre @ (n, c) # post) =
     (map (\<lambda>(n, c). (n, if idle_too_long now thr c then fst (unload c) else c)) pre
        @ (n, fst (unload c)) # post,
      map fst (filter (\<lambda>(n, c). idle_too_long now thr c) pre),
      concat (map (\<lambda>(n, c). if idle_too_long now thr c then fst (snd (unload c)) else []) pre)
        @ fst (snd (unload c)),
      Some e)"
  proof (rule Cons.IH)
    show "\<forall>m d. (m, d) \<in> set pre \<and> idle_too_long now thr d \<longrightarrow> snd (snd (unload d)) = None"
      using Cons.prems by auto
  qed
  show ?case
  proof (cases "idle_too_long now thr d")
    case True
    then have "snd (snd (unload d)) = None"
      using Cons.prems item by auto
    then have u: "unload d = (fst (unload d), fst (snd (unload d)), None)"
      by (metis prod.collapse)
    have "unload_idle_items now thr ((m, d) # (pre @ (n, c) # post)) =
        ((m, fst (unload d)) #
           (map (\<lambda>(n, c). (n, if idle_too_long now thr c then fst (unload c) else c)) pre
             @ (n, fst (unload c)) # post),
         m # map fst (filter (\<lambda>(n, c). idle_too_long now thr c) pre),
         fst (snd (unload d)) @
           (concat (map (\<lambda>(n, c). if idle_too_long now thr c then fst (snd (unload c)) else []) pre)
             @ fst (snd (unload c))),
         Some e)"
      using True ih by (subst unload_idle_items.simps, subst u) simp
    then show ?thesis
      unfolding item using True by simp
  next
    case False
    then show ?thesis
      unfolding item using ih by simp
  qed
qed

lemma unload_idle_items_untouched:
  "(n, c) \<in> set items \<Longrightarrow> \<not> idle_too_long now thr c \<Longrightarrow>
     (n, c) \<in> set (fst (unload_idle_items now thr items))"
proof (induction items)
  case Nil
  then show ?case by simp
next
  case (Cons item items)
  obtain m d where item: "item = (m, d)" by (cases item)
  show ?case
  proof (cases "(n, c) = (m, d)")
    case True
    then show ?thesis
      unfolding item using Cons.prems(2) by (simp add: split_beta)
  next
    case False
    then have "(n, c) \<in> set items" using Cons.prems(1) item by auto
    then have "(n, c) \<in> set (fst (unload_idle_items now thr items))"
      using Cons.IH Cons.prems(2) by simp
    then show ?thesis
      unfolding item using \<open>(n, c) \<in> set items\<close>
      by (auto simp: split_beta split: option.split)
  qed
qed

lemma map_of_map_values:
  "map_of (map (\<lambda>(n, c). (n, f c)) items) n = map_option f (map_of items n)"
  by (induction items) auto

lemma names_of_filter:
  assumes "distinct (map fst items)"
  shows "set (map fst (filter (\<lambda>(n, c). P c) items)) = {n. \<exists>c. map_of items n = Some c \<and> P c}"
proof -
  have "(n, c) \<in> set items \<longleftrightarrow> map_of items n = Some c" for n c
    using assms by simp
  then show ?thesis by (auto simp: image_iff)
qed


lemma two_loaded_components:
  "components two_loaded =
     [(''brain'', \<lparr>name = ''brain'', factory = token_factory, unload_callback = None,
          held_instance = Some 100, last_accessed = Some 0, access_count = 1, loaded_at = Some 0,
          factory_calls = 1, unload_calls = []\<rparr>),
      (''voice'', \<lparr>name = ''voice'', factory = token_factory, unload_callback = None,
          held_instance = Some 100, last_accessed = Some 200, access_count = 1,
          loaded_at = Some 200, factory_calls = 1, unload_calls = []\<rparr>)]"
  "mm_config two_loaded = MemoryConfig_default"
  by (simp_all add: two_loaded_def get_component_def register_component_def empty_registry_def
      MemoryManager_init_def Let_def load_def ComponentRef_init_def token_factory_def split_beta)

lemma stuck_registry_components:
  "components stuck_registry =
     [(''brain'', \<lparr>name = ''brain'', factory = token_factory, unload_callback = Some exiting_unload,
          held_instance = Some 100, last_accessed = Some 0, access_count = 1, loaded_at = Some 0,
          factory_calls = 1, unload_calls = []\<rparr>),
      (''voice'', \<lparr>name = ''voice'', factory = token_factory, unload_callback = None,
          held_instance = Some 100, last_accessed = Some 0, access_count = 1,
          loaded_at = Some 0, factory_calls = 1, unload_calls = []\<rparr>)]"
  "mm_config stuck_registry = MemoryConfig_default"
  by (simp_all add: stuck_registry_def get_component_def register_component_def empty_registry_def
      MemoryManager_init_def Let_def load_def ComponentRef_init_def token_factory_def split_beta)


end
